theory Spec2Isabelle
  imports Main "HOL-Library.Word"
begin

section \<open>Build configuration of \<^verbatim>\<open>src/opencl/typedefs.hpp\<close>\<close>

text \<open>
  \<^verbatim>\<open>Buffer3D<T>\<close> is compiled under three preprocessor switches. \<^verbatim>\<open>USE_VECTOR_TYPE\<close>
  selects the element type \<^verbatim>\<open>Rv\<close> of the buffer: the OpenCL vector type
  (\<^verbatim>\<open>cl_float3\<close>, or \<^verbatim>\<open>cl_double3\<close> under \<^verbatim>\<open>OPENCL_DP\<close>) with \<^verbatim>\<open>v = 1\<close>, or the
  template parameter \<^verbatim>\<open>T\<close> itself with \<^verbatim>\<open>v = 3\<close>. \<^verbatim>\<open>CL_API_SUFFIX__VERSION_1_2\<close> selects
  how \<^verbatim>\<open>zero_buffer\<close> clears the buffer.

  The scalar the device holds is the type variable \<open>'d\<close>: \<^verbatim>\<open>T\<close> in the interleaved
  build, \<^verbatim>\<open>real_t\<close> in the vector build. The host type \<^verbatim>\<open>R\<close> of the member templates is
  \<open>'r\<close>. What the header takes from elsewhere is a field of the build: the number of
  scalars an OpenCL 3-vector stores (\<open>lanes\<close>; the OpenCL headers declare
  \<^verbatim>\<open>cl_float3\<close> as \<^verbatim>\<open>cl_float4\<close>, four lanes \<^verbatim>\<open>s[0..3]\<close>), \<^verbatim>\<open>sizeof\<close> of the scalar, its
  object representation, the conversions \<^verbatim>\<open>T(x)\<close> and \<^verbatim>\<open>R(x)\<close>, and the scalar \<^verbatim>\<open>0.0\<close>.
  \<^verbatim>\<open>size_t\<close> is the 64-bit unsigned type of an LP64 platform, where a pointer has eight
  bytes; its arithmetic wraps.
\<close>

type_synonym byte = "8 word"
type_synonym size_t = "64 word"

record ('r, 'd) build =
  USE_VECTOR_TYPE :: bool
  CL_API_SUFFIX__VERSION_1_2 :: bool
  lanes :: nat
  sizeof_scalar :: nat
  to_bytes :: "'d \<Rightarrow> byte list"
  from_bytes :: "byte list \<Rightarrow> 'd"
  to_dev :: "'r \<Rightarrow> 'd"
  to_host :: "'d \<Rightarrow> 'r"
  zero :: 'd

text \<open>\<^verbatim>\<open>unsigned v = 1;\<close> under \<^verbatim>\<open>USE_VECTOR_TYPE\<close>, \<^verbatim>\<open>unsigned v = 3;\<close> otherwise.\<close>

definition v :: "('r, 'd) build \<Rightarrow> nat" where
  "v B = (if USE_VECTOR_TYPE B then 1 else 3)"

text \<open>An \<^verbatim>\<open>Rv\<close> is modelled by the list of its scalars: one for \<^verbatim>\<open>T\<close>, \<open>lanes\<close> for the
  vector type.\<close>

definition Rv_lanes :: "('r, 'd) build \<Rightarrow> nat" where
  "Rv_lanes B = (if USE_VECTOR_TYPE B then lanes B else 1)"

definition sizeof_Rv :: "('r, 'd) build \<Rightarrow> nat" where
  "sizeof_Rv B = Rv_lanes B * sizeof_scalar B"

text \<open>List initialisation \<^verbatim>\<open>Rv{a, b, c}\<close> and \<^verbatim>\<open>Rv{0.0}\<close>: the scalars given come first,
  the lanes left over are zero. \<^verbatim>\<open>Rv()\<close>, the element of a freshly sized
  \<^verbatim>\<open>std::vector<Rv>\<close>, is all zero.\<close>

definition Rv_init :: "('r, 'd) build \<Rightarrow> 'd list \<Rightarrow> 'd list" where
  "Rv_init B vals = vals @ replicate (Rv_lanes B - length vals) (zero B)"

definition Rv_default :: "('r, 'd) build \<Rightarrow> 'd list" where
  "Rv_default B = replicate (Rv_lanes B) (zero B)"

text \<open>The build is well formed when the object representation of a scalar has
  \<^verbatim>\<open>sizeof\<close> bytes and reads back as the scalar, and the vector type has room for three
  components.\<close>

definition build_ok :: "('r, 'd) build \<Rightarrow> bool" where
  "build_ok B \<longleftrightarrow>
     0 < sizeof_scalar B \<and> 3 \<le> lanes B \<and>
     (\<forall>x. length (to_bytes B x) = sizeof_scalar B) \<and>
     (\<forall>x. from_bytes B (to_bytes B x) = x)"

section \<open>Undefined behaviour and rejected calls\<close>

text \<open>
  Every function of the header is \<^verbatim>\<open>noexcept\<close> and checks nothing. Two kinds of thing
  can go wrong.

  An index past the end of a \<^verbatim>\<open>std::vector\<close> and a transfer past the end of host memory
  are undefined behaviour in C++. Each is a value of \<open>failure\<close>, and the operation that
  meets one stops with it.

  An OpenCL call that the platform rejects reports a status code, a \<^verbatim>\<open>cl_int\<close>. The
  queue functions of the C++ bindings return it; the constructor of \<^verbatim>\<open>cl::Buffer\<close> stores
  it through its last parameter, which is null in the calls of the header, and leaves the
  new \<^verbatim>\<open>cl::Buffer\<close> null. The header reads no status code and enables no exceptions of
  the bindings: a rejected call has no effect, and the member function carries on.
\<close>

datatype failure =
    ContainerIndex
  | HostIndex
  | StagingIndex
  | HostOverrun

datatype cl_int =
    CL_SUCCESS
  | CL_INVALID_VALUE
  | CL_INVALID_MEM_OBJECT
  | CL_INVALID_BUFFER_SIZE
  | CL_INVALID_OPERATION
  | CL_MEM_OBJECT_ALLOCATION_FAILURE
  | CL_MEM_COPY_OVERLAP

definition and_then :: "failure + 'a \<Rightarrow> ('a \<Rightarrow> failure + 'b) \<Rightarrow> failure + 'b" where
  "and_then m f = (case m of Inl e \<Rightarrow> Inl e | Inr x \<Rightarrow> f x)"

text \<open>\<^verbatim>\<open>xs[i]\<close> read and written, with the failure to report when \<open>i\<close> is out of range.
  \<^verbatim>\<open>&xs[0]\<close> is such a read as well.\<close>

definition index :: "'a list \<Rightarrow> nat \<Rightarrow> failure \<Rightarrow> failure + 'a" where
  "index xs i e = (if i < length xs then Inr (xs ! i) else Inl e)"

definition assign_at :: "'a list \<Rightarrow> nat \<Rightarrow> 'a \<Rightarrow> failure \<Rightarrow> failure + 'a list" where
  "assign_at xs i x e = (if i < length xs then Inr (xs[i := x]) else Inl e)"

section \<open>The OpenCL platform\<close>

text \<open>
  A \<^verbatim>\<open>cl::Buffer\<close> is a reference-counted handle to a memory object of the device, or
  null. The device maps the handles of its live memory objects to their bytes; it has
  \<open>available\<close> bytes left to allocate and accepts the flag words \<open>valid_flags\<close> for a
  buffer created without a host pointer. Among the flags of a memory object are those
  that keep the host from reading or from writing it (\<^verbatim>\<open>CL_MEM_HOST_WRITE_ONLY\<close>,
  \<^verbatim>\<open>CL_MEM_HOST_READ_ONLY\<close>, \<^verbatim>\<open>CL_MEM_HOST_NO_ACCESS\<close>): \<open>host_reads\<close> and \<open>host_writes\<close>
  are the flag words under which the platform lets the host read and write.

  \<^verbatim>\<open>clCreateBuffer\<close> rejects a flag word that is not valid, the size 0, and a size the
  device cannot allocate. Otherwise it allocates \<open>size\<close> bytes whose content is
  unspecified (the argument \<open>garbage\<close>). \<^verbatim>\<open>cl::Buffer(c, fs, size)\<close> is the handle it
  returns, null when the call was rejected. Destroying a \<^verbatim>\<open>cl::Buffer\<close> drops one
  reference, and the memory object is deleted with its last reference.
\<close>

datatype cl_Buffer = Null | Mem nat

record cl_mem_object =
  refcount :: nat
  mem_flags :: "64 word"
  contents :: "byte list"

record device =
  objects :: "nat \<Rightarrow> cl_mem_object option"
  next_handle :: nat
  available :: nat
  valid_flags :: "64 word \<Rightarrow> bool"
  host_reads :: "64 word \<Rightarrow> bool"
  host_writes :: "64 word \<Rightarrow> bool"

definition clCreateBuffer ::
  "device \<Rightarrow> 64 word \<Rightarrow> size_t \<Rightarrow> (nat \<Rightarrow> byte) \<Rightarrow> cl_int \<times> cl_Buffer \<times> device" where
  "clCreateBuffer dev fs nbytes garbage =
     (if \<not> valid_flags dev fs then (CL_INVALID_VALUE, Null, dev)
      else if unat nbytes = 0 then (CL_INVALID_BUFFER_SIZE, Null, dev)
      else if available dev < unat nbytes then (CL_MEM_OBJECT_ALLOCATION_FAILURE, Null, dev)
      else (CL_SUCCESS, Mem (next_handle dev),
            dev\<lparr>objects := (objects dev)(next_handle dev \<mapsto>
                   \<lparr>refcount = 1, mem_flags = fs, contents = map garbage [0..<unat nbytes]\<rparr>),
                next_handle := Suc (next_handle dev),
                available := available dev - unat nbytes\<rparr>))"

definition cl_Buffer_new :: "device \<Rightarrow> 64 word \<Rightarrow> size_t \<Rightarrow> (nat \<Rightarrow> byte) \<Rightarrow> cl_Buffer \<times> device" where
  "cl_Buffer_new dev fs nbytes garbage = snd (clCreateBuffer dev fs nbytes garbage)"

definition cl_Buffer_release :: "cl_Buffer \<Rightarrow> device \<Rightarrow> device" where
  "cl_Buffer_release buf dev =
     (case buf of
        Null \<Rightarrow> dev
      | Mem h \<Rightarrow>
          (case objects dev h of
             None \<Rightarrow> dev
           | Some obj \<Rightarrow>
               if refcount obj \<le> 1
               then dev\<lparr>objects := (objects dev)(h := None),
                        available := available dev + length (contents obj)\<rparr>
               else dev\<lparr>objects := (objects dev)(h \<mapsto> obj\<lparr>refcount := refcount obj - 1\<rparr>)\<rparr>))"

section \<open>Buffer3D: state, constructors, \<^verbatim>\<open>buffer\<close> and \<^verbatim>\<open>free\<close>\<close>

record Buffer3D =
  buff_container :: "cl_Buffer list"
  n_elems :: size_t
  buffer_size :: size_t

text \<open>\<^verbatim>\<open>Buffer3D(void) : buff_container(0), n_elems(0), buffer_size(0) {}\<close>\<close>

definition Buffer3D_default :: Buffer3D where
  "Buffer3D_default = \<lparr>buff_container = replicate 0 Null, n_elems = 0, buffer_size = 0\<rparr>"

text \<open>
  \<^verbatim>\<open>Buffer3D(c, fs, n) : buff_container(1), n_elems(n), buffer_size(n*v*sizeof(Rv))\<close>.
  The members are initialised in the order the class declares them:
  \<^verbatim>\<open>buff_container\<close>, \<^verbatim>\<open>n_elems\<close>, \<^verbatim>\<open>buffer_size\<close>, and only then \<^verbatim>\<open>v\<close> (declared after
  them, with its default member initialiser). The initialiser of \<^verbatim>\<open>buffer_size\<close>
  therefore reads \<^verbatim>\<open>v\<close> before it holds 1 or 3: the argument \<open>v_before_init\<close> is
  whatever the \<^verbatim>\<open>unsigned\<close> holds then. The body runs after all members are
  initialised, so the allocation uses the real \<^verbatim>\<open>v\<close>. Where the allocation is rejected
  the container keeps a null \<^verbatim>\<open>cl::Buffer\<close>.
\<close>

definition Buffer3D_sized ::
  "('r, 'd) build \<Rightarrow> 32 word \<Rightarrow> device \<Rightarrow> 64 word \<Rightarrow> size_t \<Rightarrow> (nat \<Rightarrow> byte)
     \<Rightarrow> failure + Buffer3D \<times> device" where
  "Buffer3D_sized B v_before_init dev fs n garbage =
     (let b = \<lparr>buff_container = replicate 1 Null, n_elems = n,
                buffer_size = n * ucast v_before_init * of_nat (sizeof_Rv B)\<rparr>;
          (buf, dev') = cl_Buffer_new dev fs (of_nat (v B) * n_elems b * of_nat (sizeof_Rv B)) garbage
      in and_then (assign_at (buff_container b) 0 buf ContainerIndex)
           (\<lambda>c. Inr (b\<lparr>buff_container := c\<rparr>, dev')))"

text \<open>\<^verbatim>\<open>cl::Buffer &buffer(void) { return buff_container[0]; }\<close>\<close>

definition buffer :: "Buffer3D \<Rightarrow> failure + cl_Buffer" where
  "buffer b = index (buff_container b) 0 ContainerIndex"

text \<open>\<^verbatim>\<open>std::vector<cl::Buffer>().swap(buff_container);\<close> The temporary takes the old
  elements and is destroyed at the end of the statement, which releases each of them.
  Nothing else is assigned.\<close>

definition free :: "Buffer3D \<Rightarrow> device \<Rightarrow> Buffer3D \<times> device" where
  "free b dev = (b\<lparr>buff_container := []\<rparr>, fold cl_Buffer_release (buff_container b) dev)"

section \<open>Transfers\<close>

text \<open>
  The command queue calls of the header, from the OpenCL C++ bindings. A queue runs its
  commands in order, and every call below is either blocking or followed by
  \<^verbatim>\<open>finish()\<close> on the same queue before the member function returns; a command is
  therefore modelled by its completed effect on the device, and \<open>finish\<close> has nothing
  left to wait for. Offsets and sizes are in bytes. Each call returns its status code
  with the device: the platform rejects a null or dead memory object
  (\<^verbatim>\<open>CL_INVALID_MEM_OBJECT\<close>), a region that does not lie inside the memory object
  (\<^verbatim>\<open>CL_INVALID_VALUE\<close>) and a host transfer that the flags of the memory object do not
  allow (\<^verbatim>\<open>CL_INVALID_OPERATION\<close>), and then transfers nothing. A command the platform
  accepts is taken to complete.

  \<^item> \<^verbatim>\<open>enqueueWriteBuffer(buffer, blocking, offset, size, ptr)\<close> copies \<open>size\<close> bytes of
    host memory at \<open>ptr\<close> to the buffer. The argument \<open>host\<close> is the host memory from
    \<open>ptr\<close> to the end of its array; reading past that end is undefined.
  \<^item> \<^verbatim>\<open>enqueueReadBuffer(buffer, blocking, offset, size, ptr)\<close> copies \<open>size\<close> bytes of
    the buffer to host memory at \<open>ptr\<close>, and the result holds that host memory after
    the call; writing past its end is undefined.
  \<^item> \<^verbatim>\<open>enqueueCopyBuffer(src, dst, src_offset, dst_offset, size)\<close>, which the platform
    also rejects when source and destination are overlapping regions of one memory
    object (\<^verbatim>\<open>CL_MEM_COPY_OVERLAP\<close>).
  \<^item> \<^verbatim>\<open>enqueueFillBuffer(buffer, pattern, offset, size)\<close>, a template over the type of
    \<open>pattern\<close>: it fills the \<open>size\<close> bytes from byte \<open>offset\<close> on with copies of the
    object \<open>pattern\<close> (passed by value, \<^verbatim>\<open>sizeof(PatternType)\<close> bytes each). The platform
    also rejects a pattern size other than 1, 2, 4, 8, 16, 32, 64 or 128 and an offset
    or size that is not a multiple of the pattern size (\<^verbatim>\<open>CL_INVALID_VALUE\<close>).
\<close>

definition mem_object :: "device \<Rightarrow> cl_Buffer \<Rightarrow> (nat \<times> cl_mem_object) option" where
  "mem_object dev buf =
     (case buf of
        Null \<Rightarrow> None
      | Mem h \<Rightarrow>
          (case objects dev h of
             None \<Rightarrow> None
           | Some obj \<Rightarrow> Some (h, obj)))"

definition store_bytes :: "device \<Rightarrow> nat \<Rightarrow> cl_mem_object \<Rightarrow> nat \<Rightarrow> byte list \<Rightarrow> device" where
  "store_bytes dev h obj offset bs =
     dev\<lparr>objects := (objects dev)(h \<mapsto>
       obj\<lparr>contents := take offset (contents obj) @ bs @ drop (offset + length bs) (contents obj)\<rparr>)\<rparr>"

definition enqueueWriteBuffer ::
  "device \<Rightarrow> cl_Buffer \<Rightarrow> bool \<Rightarrow> nat \<Rightarrow> nat \<Rightarrow> byte list \<Rightarrow> failure + cl_int \<times> device" where
  "enqueueWriteBuffer dev buf blocking offset nbytes host =
     (case mem_object dev buf of
        None \<Rightarrow> Inr (CL_INVALID_MEM_OBJECT, dev)
      | Some (h, obj) \<Rightarrow>
          if length (contents obj) < offset + nbytes then Inr (CL_INVALID_VALUE, dev)
          else if \<not> host_writes dev (mem_flags obj) then Inr (CL_INVALID_OPERATION, dev)
          else if length host < nbytes then Inl HostOverrun
          else Inr (CL_SUCCESS, store_bytes dev h obj offset (take nbytes host)))"

definition enqueueReadBuffer ::
  "device \<Rightarrow> cl_Buffer \<Rightarrow> bool \<Rightarrow> nat \<Rightarrow> nat \<Rightarrow> byte list
     \<Rightarrow> failure + cl_int \<times> device \<times> byte list" where
  "enqueueReadBuffer dev buf blocking offset nbytes host =
     (case mem_object dev buf of
        None \<Rightarrow> Inr (CL_INVALID_MEM_OBJECT, dev, host)
      | Some (h, obj) \<Rightarrow>
          if length (contents obj) < offset + nbytes then Inr (CL_INVALID_VALUE, dev, host)
          else if \<not> host_reads dev (mem_flags obj) then Inr (CL_INVALID_OPERATION, dev, host)
          else if length host < nbytes then Inl HostOverrun
          else Inr (CL_SUCCESS, dev, take nbytes (drop offset (contents obj)) @ drop nbytes host))"

definition enqueueCopyBuffer ::
  "device \<Rightarrow> cl_Buffer \<Rightarrow> cl_Buffer \<Rightarrow> nat \<Rightarrow> nat \<Rightarrow> nat \<Rightarrow> cl_int \<times> device" where
  "enqueueCopyBuffer dev src dst src_offset dst_offset nbytes =
     (case mem_object dev src of
        None \<Rightarrow> (CL_INVALID_MEM_OBJECT, dev)
      | Some (hsrc, objs) \<Rightarrow>
          (case mem_object dev dst of
             None \<Rightarrow> (CL_INVALID_MEM_OBJECT, dev)
           | Some (hdst, objd) \<Rightarrow>
               if length (contents objs) < src_offset + nbytes \<or>
                  length (contents objd) < dst_offset + nbytes
               then (CL_INVALID_VALUE, dev)
               else if hsrc = hdst \<and> src_offset < dst_offset + nbytes \<and> dst_offset < src_offset + nbytes
               then (CL_MEM_COPY_OVERLAP, dev)
               else (CL_SUCCESS,
                     store_bytes dev hdst objd dst_offset (take nbytes (drop src_offset (contents objs))))))"

definition enqueueFillBuffer ::
  "device \<Rightarrow> cl_Buffer \<Rightarrow> byte list \<Rightarrow> nat \<Rightarrow> nat \<Rightarrow> cl_int \<times> device" where
  "enqueueFillBuffer dev buf pattern offset nbytes =
     (case mem_object dev buf of
        None \<Rightarrow> (CL_INVALID_MEM_OBJECT, dev)
      | Some (h, obj) \<Rightarrow>
          if length (contents obj) < offset + nbytes \<or>
             length pattern \<notin> set [1, 2, 4, 8, 16, 32, 64, 128] \<or>
             offset mod length pattern \<noteq> 0 \<or> nbytes mod length pattern \<noteq> 0
          then (CL_INVALID_VALUE, dev)
          else (CL_SUCCESS,
                store_bytes dev h obj offset (take nbytes (concat (replicate nbytes pattern)))))"

definition finish :: "device \<Rightarrow> device" where
  "finish dev = dev"

section \<open>The staging array\<close>

text \<open>
  A \<^verbatim>\<open>std::vector<Rv>\<close> is a list of \<^verbatim>\<open>Rv\<close>s; the memory at \<^verbatim>\<open>&buff[0]\<close> is the
  concatenation of their object representations. A transfer into that memory overwrites
  its first bytes, and the elements are then what the bytes decode to.
\<close>

fun chop :: "nat \<Rightarrow> nat \<Rightarrow> 'a list \<Rightarrow> 'a list list" where
  "chop 0 k bs = []"
| "chop (Suc m) k bs = take k bs # chop m k (drop k bs)"

definition Rv_bytes :: "('r, 'd) build \<Rightarrow> 'd list \<Rightarrow> byte list" where
  "Rv_bytes B r = concat (map (to_bytes B) r)"

definition host_bytes :: "('r, 'd) build \<Rightarrow> 'd list list \<Rightarrow> byte list" where
  "host_bytes B buff = concat (map (Rv_bytes B) buff)"

definition bytes_Rv :: "('r, 'd) build \<Rightarrow> byte list \<Rightarrow> 'd list" where
  "bytes_Rv B bs = map (from_bytes B) (chop (Rv_lanes B) (sizeof_scalar B) bs)"

definition bytes_host :: "('r, 'd) build \<Rightarrow> nat \<Rightarrow> byte list \<Rightarrow> 'd list list" where
  "bytes_host B m bs = map (bytes_Rv B) (chop m (sizeof_Rv B) bs)"

text \<open>The index \<^verbatim>\<open>3*i+k\<close>, computed in \<^verbatim>\<open>size_t\<close>.\<close>

definition idx3 :: "nat \<Rightarrow> nat \<Rightarrow> nat" where
  "idx3 i k = unat (3 * (of_nat i :: size_t) + of_nat k)"

section \<open>The uploading constructor\<close>

text \<open>
  The body of the loop of the uploading constructor:
  \<^verbatim>\<open>buff[i] = Rv{xs[i], ys[i], zs[i]};\<close> under \<^verbatim>\<open>USE_VECTOR_TYPE\<close>, otherwise
  \<^verbatim>\<open>buff[3*i+0] = T(xs[i]); buff[3*i+1] = T(ys[i]); buff[3*i+2] = T(zs[i]);\<close>
\<close>

definition pack_step ::
  "('r, 'd) build \<Rightarrow> 'r list \<Rightarrow> 'r list \<Rightarrow> 'r list \<Rightarrow> nat \<Rightarrow> 'd list list \<Rightarrow> failure + 'd list list" where
  "pack_step B xs ys zs i buff =
     (if USE_VECTOR_TYPE B then
        and_then (index xs i HostIndex) (\<lambda>x.
        and_then (index ys i HostIndex) (\<lambda>y.
        and_then (index zs i HostIndex) (\<lambda>z.
          assign_at buff i (Rv_init B [to_dev B x, to_dev B y, to_dev B z]) StagingIndex)))
      else
        and_then (index xs i HostIndex) (\<lambda>x.
        and_then (assign_at buff (idx3 i 0) [to_dev B x] StagingIndex) (\<lambda>buff1.
        and_then (index ys i HostIndex) (\<lambda>y.
        and_then (assign_at buff1 (idx3 i 1) [to_dev B y] StagingIndex) (\<lambda>buff2.
        and_then (index zs i HostIndex) (\<lambda>z.
          assign_at buff2 (idx3 i 2) [to_dev B z] StagingIndex))))))"

text \<open>\<^verbatim>\<open>for (size_t i=0; i<n_elems; ++i)\<close>: the counter stays below \<open>n_elems\<close>, so it
  never wraps and is a \<open>nat\<close>.\<close>

function pack_loop ::
  "('r, 'd) build \<Rightarrow> 'r list \<Rightarrow> 'r list \<Rightarrow> 'r list \<Rightarrow> nat \<Rightarrow> nat \<Rightarrow> 'd list list \<Rightarrow> failure + 'd list list" where
  "pack_loop B xs ys zs n i buff =
     (if i < n then
        (case pack_step B xs ys zs i buff of
           Inl e \<Rightarrow> Inl e
         | Inr buff' \<Rightarrow> pack_loop B xs ys zs n (Suc i) buff')
      else Inr buff)"
  by pat_completeness auto
termination
  by (relation "measure (\<lambda>(B, xs, ys, zs, n, i, buff). n - i)") auto


text \<open>
  \<^verbatim>\<open>Buffer3D(c, q, fs, xs, ys, zs) : buff_container(1)\<close>. The body assigns \<^verbatim>\<open>n_elems\<close>
  and \<^verbatim>\<open>buffer_size\<close>, allocates, fills a staging array of \<^verbatim>\<open>v*n_elems\<close> elements and
  writes \<^verbatim>\<open>buffer_size\<close> bytes from \<^verbatim>\<open>&buff[0]\<close> to the device with a blocking write.
\<close>

definition staging :: "('r, 'd) build \<Rightarrow> size_t \<Rightarrow> 'd list list" where
  "staging B n = replicate (unat (of_nat (v B) * n)) (Rv_default B)"

definition Buffer3D_upload ::
  "('r, 'd) build \<Rightarrow> device \<Rightarrow> 64 word \<Rightarrow> 'r list \<Rightarrow> 'r list \<Rightarrow> 'r list \<Rightarrow> (nat \<Rightarrow> byte)
     \<Rightarrow> failure + Buffer3D \<times> device" where
  "Buffer3D_upload B dev fs xs ys zs garbage =
     (let n = of_nat (length xs);
          bsize = n * of_nat (v B) * of_nat (sizeof_Rv B);
          (buf, dev1) = cl_Buffer_new dev fs bsize garbage
      in and_then (assign_at (replicate 1 Null) 0 buf ContainerIndex) (\<lambda>c.
         and_then (pack_loop B xs ys zs (unat n) 0 (staging B n)) (\<lambda>buff.
         and_then (index c 0 ContainerIndex) (\<lambda>buf0.
         and_then (index buff 0 StagingIndex) (\<lambda>first.
         and_then (enqueueWriteBuffer dev1 buf0 True 0 (unat bsize) (host_bytes B buff)) (\<lambda>(status, dev2).
           Inr (\<lparr>buff_container = c, n_elems = n, buffer_size = bsize\<rparr>, dev2)))))))"

section \<open>\<^verbatim>\<open>copy_to_host\<close>, \<^verbatim>\<open>copy_to_dev\<close> and \<^verbatim>\<open>zero_buffer\<close>\<close>

text \<open>
  The body of the loop of \<^verbatim>\<open>copy_to_host\<close>:
  \<^verbatim>\<open>xs[i] = R(buff[i].s[0]); ys[i] = R(buff[i].s[1]); zs[i] = R(buff[i].s[2]);\<close> under
  \<^verbatim>\<open>USE_VECTOR_TYPE\<close>, otherwise
  \<^verbatim>\<open>xs[i] = R(buff[3*i+0]); ys[i] = R(buff[3*i+1]); zs[i] = R(buff[3*i+2]);\<close>
\<close>

definition unpack_step ::
  "('r, 'd) build \<Rightarrow> 'd list list \<Rightarrow> nat \<Rightarrow> 'r list \<times> 'r list \<times> 'r list
     \<Rightarrow> failure + 'r list \<times> 'r list \<times> 'r list" where
  "unpack_step B buff i dest =
     (case dest of (xs, ys, zs) \<Rightarrow>
        and_then (index buff (if USE_VECTOR_TYPE B then i else idx3 i 0) StagingIndex) (\<lambda>rx.
        and_then (assign_at xs i (to_host B (rx ! 0)) HostIndex) (\<lambda>xs'.
        and_then (index buff (if USE_VECTOR_TYPE B then i else idx3 i 1) StagingIndex) (\<lambda>ry.
        and_then (assign_at ys i (to_host B (ry ! (if USE_VECTOR_TYPE B then 1 else 0))) HostIndex) (\<lambda>ys'.
        and_then (index buff (if USE_VECTOR_TYPE B then i else idx3 i 2) StagingIndex) (\<lambda>rz.
        and_then (assign_at zs i (to_host B (rz ! (if USE_VECTOR_TYPE B then 2 else 0))) HostIndex) (\<lambda>zs'.
          Inr (xs', ys', zs'))))))))"

function unpack_loop ::
  "('r, 'd) build \<Rightarrow> 'd list list \<Rightarrow> nat \<Rightarrow> nat \<Rightarrow> 'r list \<times> 'r list \<times> 'r list
     \<Rightarrow> failure + 'r list \<times> 'r list \<times> 'r list" where
  "unpack_loop B buff n i dest =
     (if i < n then
        (case unpack_step B buff i dest of
           Inl e \<Rightarrow> Inl e
         | Inr dest' \<Rightarrow> unpack_loop B buff n (Suc i) dest')
      else Inr dest)"
  by pat_completeness auto
termination
  by (relation "measure (\<lambda>(B, buff, n, i, dest). n - i)") auto

text \<open>\<^verbatim>\<open>copy_to_host(q, xs, ys, zs) const\<close>: a staging array of \<^verbatim>\<open>v*n_elems\<close> elements, a
  blocking read of \<^verbatim>\<open>buffer_size\<close> bytes to \<^verbatim>\<open>&buff[0]\<close>, and the loop. The result is the
  device and the three destination vectors after the call.\<close>

definition copy_to_host ::
  "('r, 'd) build \<Rightarrow> Buffer3D \<Rightarrow> device \<Rightarrow> 'r list \<Rightarrow> 'r list \<Rightarrow> 'r list
     \<Rightarrow> failure + device \<times> 'r list \<times> 'r list \<times> 'r list" where
  "copy_to_host B b dev xs ys zs =
     (let buff = staging B (n_elems b)
      in and_then (index (buff_container b) 0 ContainerIndex) (\<lambda>buf.
         and_then (index buff 0 StagingIndex) (\<lambda>first.
         and_then (enqueueReadBuffer dev buf True 0 (unat (buffer_size b)) (host_bytes B buff))
           (\<lambda>(status, dev', mem).
         and_then (unpack_loop B (bytes_host B (length buff) mem) (unat (n_elems b)) 0 (xs, ys, zs))
           (\<lambda>dest. Inr (dev', dest))))))"

text \<open>\<^verbatim>\<open>copy_to_dev(q, dst) const\<close>:
  \<^verbatim>\<open>q.enqueueCopyBuffer(buff_container[0], dst.buff_container[0], 0, 0, buffer_size); q.finish();\<close>\<close>

definition copy_to_dev :: "Buffer3D \<Rightarrow> device \<Rightarrow> Buffer3D \<Rightarrow> failure + device" where
  "copy_to_dev b dev dst =
     and_then (index (buff_container b) 0 ContainerIndex) (\<lambda>src.
     and_then (index (buff_container dst) 0 ContainerIndex) (\<lambda>dstbuf.
       case enqueueCopyBuffer dev src dstbuf 0 0 (unat (buffer_size b)) of
         (status, dev') \<Rightarrow> Inr (finish dev')))"

text \<open>
  \<^verbatim>\<open>zero_buffer()\<close>. With \<^verbatim>\<open>CL_API_SUFFIX__VERSION_1_2\<close>:
  \<^verbatim>\<open>const Rv zero{0.0}; vcl::queue.enqueueFillBuffer(buff_container[0], &zero, sizeof(Rv), v*n_elems);\<close>
  The second argument is the pattern, and it is the pointer \<^verbatim>\<open>&zero\<close>: the pattern
  bytes are the object representation of that address (\<open>addr_of_zero\<close>), the third
  argument \<^verbatim>\<open>sizeof(Rv)\<close> is the byte offset and the fourth \<^verbatim>\<open>v*n_elems\<close> the byte count.
  Without: \<^verbatim>\<open>const std::vector<Rv> zeros(3*n_elems, {0.0});\<close> and a non-blocking write of
  \<^verbatim>\<open>buffer_size\<close> bytes from \<^verbatim>\<open>&zeros[0]\<close>. Both end with \<^verbatim>\<open>vcl::queue.finish();\<close>
\<close>

definition zero_buffer :: "('r, 'd) build \<Rightarrow> Buffer3D \<Rightarrow> device \<Rightarrow> byte list \<Rightarrow> failure + device" where
  "zero_buffer B b dev addr_of_zero =
     (if CL_API_SUFFIX__VERSION_1_2 B then
        and_then (index (buff_container b) 0 ContainerIndex) (\<lambda>buf.
          case enqueueFillBuffer dev buf addr_of_zero (sizeof_Rv B) (unat (of_nat (v B) * n_elems b)) of
            (status, dev') \<Rightarrow> Inr (finish dev'))
      else
        (let zeros = replicate (unat (3 * n_elems b)) (Rv_init B [zero B])
         in and_then (index (buff_container b) 0 ContainerIndex) (\<lambda>buf.
            and_then (index zeros 0 StagingIndex) (\<lambda>first.
            and_then (enqueueWriteBuffer dev buf False 0 (unat (buffer_size b)) (host_bytes B zeros))
              (\<lambda>(status, dev'). Inr (finish dev'))))))"

section \<open>Occupied buffers\<close>

text \<open>
  A buffer is occupied on a device when its container holds one live memory object of
  \<^verbatim>\<open>v * n_elems * sizeof(Rv)\<close> bytes, the size both sized constructors allocate, for at
  least one element (the platform allocates no memory object of size 0), and that
  product does not overflow \<^verbatim>\<open>size_t\<close> (a staging array of the buffer's size exists).
  Nothing is asked of \<open>buffer_size\<close>. Both sized constructors leave an occupied buffer
  where the platform allocates the memory object (lemmas \<open>occupied_after_sized\<close> and
  \<open>occupied_after_upload\<close>). \<open>allocates dev fs k\<close> says that the device accepts a request
  for \<open>k\<close> bytes under the flags \<open>fs\<close>; \<open>host_readable\<close> and \<open>host_writable\<close> say that
  the buffer holds a live memory object whose flags let the host read and write it.
\<close>

definition fits :: "('r, 'd) build \<Rightarrow> nat \<Rightarrow> bool" where
  "fits B n \<longleftrightarrow> n * v B * sizeof_Rv B < 2 ^ 64"

definition occupied :: "('r, 'd) build \<Rightarrow> device \<Rightarrow> Buffer3D \<Rightarrow> bool" where
  "occupied B dev b \<longleftrightarrow>
     length (buff_container b) = 1 \<and>
     (case mem_object dev (buff_container b ! 0) of
        None \<Rightarrow> False
      | Some (h, obj) \<Rightarrow> length (contents obj) = unat (n_elems b) * v B * sizeof_Rv B) \<and>
     0 < unat (n_elems b) \<and>
     fits B (unat (n_elems b))"

definition allocates :: "device \<Rightarrow> 64 word \<Rightarrow> nat \<Rightarrow> bool" where
  "allocates dev fs k \<longleftrightarrow> valid_flags dev fs \<and> 0 < k \<and> k \<le> available dev"

definition host_readable :: "device \<Rightarrow> Buffer3D \<Rightarrow> bool" where
  "host_readable dev b \<longleftrightarrow>
     (case mem_object dev (buff_container b ! 0) of
        None \<Rightarrow> False
      | Some (h, obj) \<Rightarrow> host_reads dev (mem_flags obj))"

definition host_writable :: "device \<Rightarrow> Buffer3D \<Rightarrow> bool" where
  "host_writable dev b \<longleftrightarrow>
     (case mem_object dev (buff_container b ! 0) of
        None \<Rightarrow> False
      | Some (h, obj) \<Rightarrow> host_writes dev (mem_flags obj))"

section \<open>What the staging array and the device hold\<close>

text \<open>
  Names for the values the statements below are about: the staging array the uploading
  constructor builds (\<open>packed\<close>, element by element \<open>packed_row\<close>), component \<open>k\<close> of
  logical element \<open>j\<close> of a staging array under the layout of the build, the memory of
  the staging array of \<^verbatim>\<open>copy_to_host\<close> after its read from a memory object with the
  bytes \<open>cs\<close> that the host may read or not (\<open>after_read\<close>: untouched where the read was
  rejected), the staging array
  that memory \<open>bs\<close> decodes to (\<open>held\<close>), destination vectors that differ below index
  \<open>n\<close> only (\<open>kept_from n\<close>), and the buffer and the device the uploading constructor
  leaves where its allocation succeeds.
\<close>

definition packed_row :: "('r, 'd) build \<Rightarrow> 'r list \<Rightarrow> 'r list \<Rightarrow> 'r list \<Rightarrow> nat \<Rightarrow> 'd list list" where
  "packed_row B xs ys zs i =
     (if USE_VECTOR_TYPE B then [Rv_init B [to_dev B (xs ! i), to_dev B (ys ! i), to_dev B (zs ! i)]]
      else [[to_dev B (xs ! i)], [to_dev B (ys ! i)], [to_dev B (zs ! i)]])"

definition packed :: "('r, 'd) build \<Rightarrow> 'r list \<Rightarrow> 'r list \<Rightarrow> 'r list \<Rightarrow> 'd list list" where
  "packed B xs ys zs = concat (map (packed_row B xs ys zs) [0..<length xs])"

definition component :: "('r, 'd) build \<Rightarrow> 'd list list \<Rightarrow> nat \<Rightarrow> nat \<Rightarrow> 'd" where
  "component B buff j k = (if USE_VECTOR_TYPE B then buff ! j ! k else buff ! (3 * j + k) ! 0)"

definition after_read :: "('r, 'd) build \<Rightarrow> Buffer3D \<Rightarrow> bool \<Rightarrow> byte list \<Rightarrow> byte list" where
  "after_read B b may_read cs =
     (if length cs < unat (buffer_size b) \<or> \<not> may_read then host_bytes B (staging B (n_elems b))
      else take (unat (buffer_size b)) cs @
           drop (unat (buffer_size b)) (host_bytes B (staging B (n_elems b))))"

definition held :: "('r, 'd) build \<Rightarrow> Buffer3D \<Rightarrow> byte list \<Rightarrow> 'd list list" where
  "held B b bs = bytes_host B (v B * unat (n_elems b)) bs"

definition kept_from ::
  "nat \<Rightarrow> 'r list \<times> 'r list \<times> 'r list \<Rightarrow> 'r list \<times> 'r list \<times> 'r list \<Rightarrow> bool" where
  "kept_from n dest dest' \<longleftrightarrow>
     (case dest of (xs, ys, zs) \<Rightarrow> case dest' of (xs', ys', zs') \<Rightarrow>
        length xs' = length xs \<and> length ys' = length ys \<and> length zs' = length zs \<and>
        drop n xs' = drop n xs \<and> drop n ys' = drop n ys \<and> drop n zs' = drop n zs)"

definition uploaded :: "('r, 'd) build \<Rightarrow> device \<Rightarrow> 'r list \<Rightarrow> Buffer3D" where
  "uploaded B dev xs =
     \<lparr>buff_container = [Mem (next_handle dev)], n_elems = of_nat (length xs),
      buffer_size = of_nat (length xs) * of_nat (v B) * of_nat (sizeof_Rv B)\<rparr>"

definition after_upload ::
  "('r, 'd) build \<Rightarrow> device \<Rightarrow> 64 word \<Rightarrow> 'r list \<Rightarrow> 'r list \<Rightarrow> 'r list \<Rightarrow> device" where
  "after_upload B dev fs xs ys zs =
     dev\<lparr>objects := (objects dev)(next_handle dev \<mapsto>
            \<lparr>refcount = 1, mem_flags = fs, contents = host_bytes B (packed B xs ys zs)\<rparr>),
         next_handle := Suc (next_handle dev),
         available := available dev - length xs * v B * sizeof_Rv B\<rparr>"

section \<open>Concrete builds\<close>

text \<open>
  \<^verbatim>\<open>Buffer3D<cl_float>\<close> used with \<^verbatim>\<open>std::vector<cl_float>\<close>, and \<^verbatim>\<open>Buffer3D<cl_double>\<close>
  used with \<^verbatim>\<open>std::vector<cl_double>\<close> under \<^verbatim>\<open>OPENCL_DP\<close>: host and device precision
  match, so \<^verbatim>\<open>T(x)\<close> and \<^verbatim>\<open>R(x)\<close> change nothing. A scalar is its IEEE 754 bit pattern,
  stored in four or eight bytes, least significant first. As single precision
  \<open>0x3F800000\<close> is 1.0, \<open>0x40000000\<close> is 2.0, \<open>0x40400000\<close> is 3.0, \<open>0x40800000\<close> is 4.0,
  \<open>0x40A00000\<close> is 5.0 and \<open>0x40C00000\<close> is 6.0; as double precision
  \<open>0x3FF0000000000000\<close> is 1.0, \<open>0x4000000000000000\<close> is 2.0 and \<open>0x4008000000000000\<close> is
  3.0; \<open>0\<close> is 0.0 in both. The vector types \<^verbatim>\<open>cl_float3\<close> and \<^verbatim>\<open>cl_double3\<close> have four
  lanes. The two arguments of a build are the switches \<^verbatim>\<open>USE_VECTOR_TYPE\<close> and
  \<^verbatim>\<open>CL_API_SUFFIX__VERSION_1_2\<close>.

  \<open>no_objects\<close> is a device without memory objects that has 1 GiB to allocate and
  accepts the flag words \<^verbatim>\<open>CL_MEM_READ_WRITE\<close> (1), \<^verbatim>\<open>CL_MEM_WRITE_ONLY\<close> (2),
  \<^verbatim>\<open>CL_MEM_READ_ONLY\<close> (4) and 0, which stands for \<^verbatim>\<open>CL_MEM_READ_WRITE\<close>; none of them
  restricts the host, which may read and write every buffer of this device.
\<close>

fun le_bytes :: "nat \<Rightarrow> nat \<Rightarrow> byte list" where
  "le_bytes 0 n = []"
| "le_bytes (Suc k) n = of_nat (n mod 256) # le_bytes k (n div 256)"

fun le_nat :: "byte list \<Rightarrow> nat" where
  "le_nat [] = 0"
| "le_nat (b # bs) = unat b + 256 * le_nat bs"

definition enc32 :: "32 word \<Rightarrow> byte list" where
  "enc32 w = le_bytes 4 (unat w)"

definition dec32 :: "byte list \<Rightarrow> 32 word" where
  "dec32 bs = of_nat (le_nat bs)"

definition enc64 :: "64 word \<Rightarrow> byte list" where
  "enc64 w = le_bytes 8 (unat w)"

definition dec64 :: "byte list \<Rightarrow> 64 word" where
  "dec64 bs = of_nat (le_nat bs)"

definition float_build :: "bool \<Rightarrow> bool \<Rightarrow> (32 word, 32 word) build" where
  "float_build vec cl12 =
     \<lparr>USE_VECTOR_TYPE = vec, CL_API_SUFFIX__VERSION_1_2 = cl12, lanes = 4, sizeof_scalar = 4,
      to_bytes = enc32, from_bytes = dec32, to_dev = (\<lambda>x. x), to_host = (\<lambda>x. x), zero = 0\<rparr>"

definition no_objects :: device where
  "no_objects = \<lparr>objects = (\<lambda>h. None), next_handle = 0, available = 2 ^ 30,
                 valid_flags = (\<lambda>fs. fs = 0 \<or> fs = 1 \<or> fs = 2 \<or> fs = 4),
                 host_reads = (\<lambda>fs. True), host_writes = (\<lambda>fs. True)\<rparr>"

definition double_build :: "bool \<Rightarrow> bool \<Rightarrow> (64 word, 64 word) build" where
  "double_build vec cl12 =
     \<lparr>USE_VECTOR_TYPE = vec, CL_API_SUFFIX__VERSION_1_2 = cl12, lanes = 4, sizeof_scalar = 8,
      to_bytes = enc64, from_bytes = dec64, to_dev = (\<lambda>x. x), to_host = (\<lambda>x. x), zero = 0\<rparr>"

section \<open>Lemmas\<close>

lemma and_then_simps [simp]:
  "and_then (Inl e) f = Inl e" "and_then (Inr x) f = f x"
  by (simp_all add: and_then_def)

lemma unat_size3: "unat ((n::size_t) * of_nat a * of_nat b) = (unat n * a * b) mod 2 ^ 64"
  by (simp add: unat_word_ariths unat_of_nat mod_mult_eq mod_mult_left_eq mod_mult_right_eq)

lemma idx3_eq: "3 * i + k < 2 ^ 64 \<Longrightarrow> idx3 i k = 3 * i + k"
  by (simp add: idx3_def unat_word_ariths unat_of_nat mod_add_eq mod_mult_right_eq)

lemma update3:
  "3 * i + 2 < length buff \<Longrightarrow>
   buff[3 * i := a, 3 * i + 1 := b, 3 * i + 2 := c] = take (3 * i) buff @ [a, b, c] @ drop (3 * Suc i) buff"
  by (auto simp: list_eq_iff_nth_eq nth_append nth_list_update nth_Cons' min_def)

lemma update1:
  "i < length buff \<Longrightarrow> buff[i := a] = take i buff @ [a] @ drop (Suc i) buff"
  by (simp add: upd_conv_take_nth_drop)

lemma length_packed_row [simp]: "length (packed_row B xs ys zs i) = v B"
  by (simp add: packed_row_def v_def)

lemma pack_step_eq:
  assumes "i < n" "n \<le> length xs" "n \<le> length ys" "n \<le> length zs"
    and "length buff = v B * n" "v B * n < 2 ^ 64"
  shows "pack_step B xs ys zs i buff =
           Inr (take (v B * i) buff @ packed_row B xs ys zs i @ drop (v B * Suc i) buff)"
proof (cases "USE_VECTOR_TYPE B")
  case True
  with assms show ?thesis
    by (simp add: pack_step_def index_def assign_at_def packed_row_def v_def update1)
next
  case False
  with assms have len: "3 * i + 2 < length buff" "3 * i + 2 < 2 ^ 64"
    by (simp_all add: v_def)
  then have ix: "idx3 i 0 = 3 * i" "idx3 i 1 = 3 * i + 1" "idx3 i 2 = 3 * i + 2"
    using idx3_eq [of i 0] idx3_eq [of i 1] idx3_eq [of i 2] by simp_all
  have rd: "index xs i HostIndex = Inr (xs ! i)" "index ys i HostIndex = Inr (ys ! i)"
    "index zs i HostIndex = Inr (zs ! i)"
    using assms by (simp_all add: index_def)
  have wr: "\<And>l k a. length l = length buff \<Longrightarrow> k \<le> 3 * i + 2 \<Longrightarrow>
      assign_at l k a StagingIndex = Inr (l[k := a])"
    using len by (simp add: assign_at_def)
  have "pack_step B xs ys zs i buff =
      Inr (buff[3 * i := [to_dev B (xs ! i)], 3 * i + 1 := [to_dev B (ys ! i)],
                3 * i + 2 := [to_dev B (zs ! i)]])"
    unfolding pack_step_def ix using False by (simp add: rd wr)
  also have "\<dots> = Inr (take (v B * i) buff @ packed_row B xs ys zs i @ drop (v B * Suc i) buff)"
    using False update3 [OF len(1)] by (simp add: packed_row_def v_def)
  finally show ?thesis .
qed

lemma pack_loop_eq:
  assumes "n \<le> length xs" "n \<le> length ys" "n \<le> length zs" "v B * n < 2 ^ 64"
  shows "i \<le> n \<Longrightarrow> length buff = v B * n \<Longrightarrow>
         pack_loop B xs ys zs n i buff =
           Inr (take (v B * i) buff @ concat (map (packed_row B xs ys zs) [i..<n]))"
proof (induction "n - i" arbitrary: i buff)
  case 0
  then show ?case by simp
next
  case (Suc k)
  then have lt: "i < n" by simp
  let ?buff' = "take (v B * i) buff @ packed_row B xs ys zs i @ drop (v B * Suc i) buff"
  have step: "pack_step B xs ys zs i buff = Inr ?buff'"
    using pack_step_eq [OF lt assms(1-3) Suc.prems(2) assms(4)] .
  have "v B * Suc i \<le> v B * n" using lt by (intro mult_le_mono2) simp
  then have len': "length ?buff' = v B * n"
    using Suc.prems(2) lt by (simp add: min_def)
  have tk: "take (v B * Suc i) ?buff' = take (v B * i) buff @ packed_row B xs ys zs i"
    using Suc.prems(2) lt \<open>v B * Suc i \<le> v B * n\<close> by (simp add: min_def)
  have ih: "pack_loop B xs ys zs n (Suc i) ?buff' =
          Inr (take (v B * Suc i) ?buff' @ concat (map (packed_row B xs ys zs) [Suc i..<n]))"
    using Suc.hyps(1) [of "Suc i" ?buff'] Suc.hyps(2) lt len' by simp
  have "pack_loop B xs ys zs n i buff = pack_loop B xs ys zs n (Suc i) ?buff'"
    by (subst pack_loop.simps) (simp add: lt step del: pack_loop.simps)
  also note ih
  also have "Inr (take (v B * Suc i) ?buff' @ concat (map (packed_row B xs ys zs) [Suc i..<n])) =
      (Inr (take (v B * i) buff @ concat (map (packed_row B xs ys zs) [i..<n]))
         :: failure + 'b list list)"
    unfolding tk using lt by (simp add: upt_conv_Cons del: upt_Suc)
  finally show ?case .
qed

subsection \<open>Object representations\<close>

lemma chop_concat:
  "(\<And>x. x \<in> set xss \<Longrightarrow> length x = k) \<Longrightarrow> chop (length xss) k (concat xss @ rest) = xss"
  by (induction xss) simp_all

lemma length_chop [simp]: "length (chop m k bs) = m"
  by (induction m arbitrary: bs) simp_all

lemma length_Rv_bytes: "build_ok B \<Longrightarrow> length (Rv_bytes B r) = length r * sizeof_scalar B"
  by (induction r) (simp_all add: Rv_bytes_def build_ok_def)

lemma bytes_Rv_Rv_bytes:
  assumes "build_ok B" "length r = Rv_lanes B"
  shows "bytes_Rv B (Rv_bytes B r @ rest) = r"
proof -
  have "chop (length (map (to_bytes B) r)) (sizeof_scalar B) (concat (map (to_bytes B) r) @ rest)
          = map (to_bytes B) r"
    using assms(1) by (intro chop_concat) (auto simp: build_ok_def)
  then have "bytes_Rv B (Rv_bytes B r @ rest) = map (from_bytes B) (map (to_bytes B) r)"
    using assms(2) by (simp add: bytes_Rv_def Rv_bytes_def)
  also have "\<dots> = r"
    using assms(1) by (simp add: build_ok_def map_idI)
  finally show ?thesis .
qed

lemma length_host_bytes:
  "build_ok B \<Longrightarrow> (\<And>r. r \<in> set buff \<Longrightarrow> length r = Rv_lanes B) \<Longrightarrow>
   length (host_bytes B buff) = length buff * sizeof_Rv B"
  by (induction buff) (simp_all add: host_bytes_def length_Rv_bytes sizeof_Rv_def)

lemma map_bytes_Rv_chop:
  assumes "build_ok B" "\<And>r. r \<in> set buff \<Longrightarrow> length r = Rv_lanes B"
  shows "map (bytes_Rv B) (chop (length buff) (sizeof_Rv B) (host_bytes B buff @ rest)) = buff"
  using assms(2)
proof (induction buff)
  case Nil
  then show ?case by simp
next
  case (Cons r buff)
  have len: "length (Rv_bytes B r) = sizeof_Rv B"
    using Cons.prems assms(1) by (simp add: length_Rv_bytes sizeof_Rv_def)
  have hd: "bytes_Rv B (Rv_bytes B r @ host_bytes B buff @ rest) = r"
    using bytes_Rv_Rv_bytes [OF assms(1)] Cons.prems by simp
  have "bytes_Rv B (take (sizeof_Rv B) (Rv_bytes B r @ host_bytes B buff @ rest)) = r"
    using bytes_Rv_Rv_bytes [OF assms(1), of r "[]"] Cons.prems len by simp
  moreover have "map (bytes_Rv B) (chop (length buff) (sizeof_Rv B) (host_bytes B buff @ rest)) = buff"
    using Cons by simp
  ultimately show ?case
    using len by (simp add: host_bytes_def)
qed

lemma bytes_host_host_bytes:
  "build_ok B \<Longrightarrow> (\<And>r. r \<in> set buff \<Longrightarrow> length r = Rv_lanes B) \<Longrightarrow>
   bytes_host B (length buff) (host_bytes B buff @ rest) = buff"
  by (simp add: bytes_host_def map_bytes_Rv_chop)

subsection \<open>The loop of \<^verbatim>\<open>copy_to_host\<close>\<close>

lemma unpack_step_eq:
  assumes "i < n" "n \<le> length xs" "n \<le> length ys" "n \<le> length zs"
    and "length buff = v B * n" "v B * n < 2 ^ 64"
  shows "unpack_step B buff i (xs, ys, zs) =
           Inr (xs[i := to_host B (component B buff i 0)],
                ys[i := to_host B (component B buff i 1)],
                zs[i := to_host B (component B buff i 2)])"
proof (cases "USE_VECTOR_TYPE B")
  case True
  with assms show ?thesis
    by (simp add: unpack_step_def index_def assign_at_def component_def v_def)
next
  case False
  with assms have len: "3 * i + 2 < length buff" "3 * i + 2 < 2 ^ 64"
    by (simp_all add: v_def)
  then have ix: "idx3 i 0 = 3 * i" "idx3 i 1 = 3 * i + 1" "idx3 i 2 = 3 * i + 2"
    using idx3_eq [of i 0] idx3_eq [of i 1] idx3_eq [of i 2] by simp_all
  have rd: "\<And>k. k \<le> 3 * i + 2 \<Longrightarrow> index buff k StagingIndex = Inr (buff ! k)"
    using len by (simp add: index_def)
  have wr: "\<And>a. assign_at xs i a HostIndex = Inr (xs[i := a])"
    "\<And>a. assign_at ys i a HostIndex = Inr (ys[i := a])"
    "\<And>a. assign_at zs i a HostIndex = Inr (zs[i := a])"
    using assms by (simp_all add: assign_at_def)
  show ?thesis
    unfolding unpack_step_def ix using False by (simp add: rd wr component_def)
qed

lemma unpack_loop_eq:
  assumes "n \<le> length xs" "n \<le> length ys" "n \<le> length zs"
    and "length buff = v B * n" "v B * n < 2 ^ 64"
  shows "i \<le> n \<Longrightarrow> length xs' = length xs \<Longrightarrow> length ys' = length ys \<Longrightarrow> length zs' = length zs \<Longrightarrow>
         unpack_loop B buff n i (xs', ys', zs') =
           Inr (take i xs' @ map (\<lambda>j. to_host B (component B buff j 0)) [i..<n] @ drop n xs',
                take i ys' @ map (\<lambda>j. to_host B (component B buff j 1)) [i..<n] @ drop n ys',
                take i zs' @ map (\<lambda>j. to_host B (component B buff j 2)) [i..<n] @ drop n zs')"
proof (induction "n - i" arbitrary: i xs' ys' zs')
  case 0
  then show ?case by simp
next
  case (Suc k)
  then have lt: "i < n" by simp
  let ?xs = "xs'[i := to_host B (component B buff i 0)]"
  let ?ys = "ys'[i := to_host B (component B buff i 1)]"
  let ?zs = "zs'[i := to_host B (component B buff i 2)]"
  have step: "unpack_step B buff i (xs', ys', zs') = Inr (?xs, ?ys, ?zs)"
    using unpack_step_eq [OF lt _ _ _ assms(4,5), of xs' ys' zs'] assms(1-3) Suc.prems by simp
  have ih: "unpack_loop B buff n (Suc i) (?xs, ?ys, ?zs) =
           Inr (take (Suc i) ?xs @ map (\<lambda>j. to_host B (component B buff j 0)) [Suc i..<n] @ drop n ?xs,
                take (Suc i) ?ys @ map (\<lambda>j. to_host B (component B buff j 1)) [Suc i..<n] @ drop n ?ys,
                take (Suc i) ?zs @ map (\<lambda>j. to_host B (component B buff j 2)) [Suc i..<n] @ drop n ?zs)"
    using Suc.hyps(1) [of "Suc i" ?xs ?ys ?zs] Suc.hyps(2) lt Suc.prems by simp
  have "unpack_loop B buff n i (xs', ys', zs') = unpack_loop B buff n (Suc i) (?xs, ?ys, ?zs)"
    by (subst unpack_loop.simps) (simp add: lt step del: unpack_loop.simps)
  also note ih
  finally show ?case
    using lt assms(1-3) Suc.prems(2-4)
    by (simp add: take_Suc_conv_app_nth upt_conv_Cons del: upt_Suc unpack_loop.simps)
qed

subsection \<open>Sizes\<close>

lemma sizeof_Rv_pos: "build_ok B \<Longrightarrow> 0 < sizeof_Rv B"
  by (auto simp: build_ok_def sizeof_Rv_def Rv_lanes_def)

lemma v_pos: "0 < v B"
  by (simp add: v_def)

lemma fits_v:
  assumes "build_ok B" "fits B n"
  shows "v B * n < 2 ^ 64"
proof -
  have "Suc 0 \<le> sizeof_Rv B"
    using sizeof_Rv_pos [OF assms(1)] by simp
  then have "n * v B * Suc 0 \<le> n * v B * sizeof_Rv B"
    by (rule mult_le_mono2)
  also have "\<dots> < 2 ^ 64"
    using assms(2) unfolding fits_def .
  finally show ?thesis
    by (simp only: mult_Suc_right mult_0_right add_0_right mult.commute [of n])
qed

lemma fits_n:
  assumes "build_ok B" "fits B n"
  shows "n < 2 ^ 64"
proof -
  have "Suc 0 * n \<le> v B * n"
    by (rule mult_le_mono1) (simp add: v_def)
  also note fits_v [OF assms]
  finally show ?thesis
    by (simp only: mult_Suc mult_0 add_0_right)
qed

lemma unat_bsize:
  "fits B (unat n) \<Longrightarrow>
   unat (n * of_nat (v B) * of_nat (sizeof_Rv B) :: size_t) = unat n * v B * sizeof_Rv B"
  by (simp add: unat_size3 fits_def)

lemma unat_vn: "v B * unat n < 2 ^ 64 \<Longrightarrow> unat (of_nat (v B) * n :: size_t) = v B * unat n"
  by (simp add: unat_word_ariths unat_of_nat mod_mult_left_eq)

lemma unat_of_nat_len: "n < 2 ^ 64 \<Longrightarrow> unat (of_nat n :: size_t) = n"
  by (simp add: unat_of_nat)

lemma length_staging:
  "build_ok B \<Longrightarrow> fits B (unat n) \<Longrightarrow> length (staging B n) = v B * unat n"
  using fits_v [of B "unat n"] by (simp add: staging_def unat_vn)

lemma staging_rows: "r \<in> set (staging B n) \<Longrightarrow> length r = Rv_lanes B"
  by (auto simp: staging_def Rv_default_def)

lemma length_staging_bytes:
  assumes "build_ok B" "fits B (unat n)"
  shows "length (host_bytes B (staging B n)) = unat n * v B * sizeof_Rv B"
  using length_host_bytes [OF assms(1), of "staging B n"] length_staging [OF assms]
  by (simp add: staging_rows mult.commute)

lemma mem_object_Some:
  "mem_object dev buf = Some (h, obj) \<longleftrightarrow> buf = Mem h \<and> objects dev h = Some obj"
  by (auto simp: mem_object_def split: cl_Buffer.splits option.splits)

lemma occupiedD:
  assumes "occupied B dev b"
  obtains h obj where "buff_container b = [Mem h]" "objects dev h = Some obj"
    "length (contents obj) = unat (n_elems b) * v B * sizeof_Rv B"
    "0 < unat (n_elems b)"
    "fits B (unat (n_elems b))"
proof -
  from assms obtain buf where c: "buff_container b = [buf]"
    by (cases "buff_container b") (auto simp: occupied_def)
  with assms obtain h obj where m: "mem_object dev buf = Some (h, obj)"
    and l: "length (contents obj) = unat (n_elems b) * v B * sizeof_Rv B"
    by (auto simp: occupied_def split: option.splits)
  from m have "buf = Mem h" "objects dev h = Some obj"
    by (simp_all add: mem_object_Some)
  with c l assms that show ?thesis
    by (simp add: occupied_def)
qed

lemma occupiedI:
  "buff_container b = [Mem h] \<Longrightarrow> objects dev h = Some obj \<Longrightarrow>
   length (contents obj) = unat (n_elems b) * v B * sizeof_Rv B \<Longrightarrow>
   0 < unat (n_elems b) \<Longrightarrow> fits B (unat (n_elems b)) \<Longrightarrow> occupied B dev b"
  by (simp add: occupied_def mem_object_def)

subsection \<open>copy_to_host on an occupied buffer\<close>

lemma length_held [simp]: "length (held B b bs) = v B * unat (n_elems b)"
  by (simp add: held_def bytes_host_def)

lemma enqueueReadBuffer_staging:
  assumes "objects dev h = Some obj"
    and "length (contents obj) = length (host_bytes B (staging B (n_elems b)))"
  shows "\<exists>status. enqueueReadBuffer dev (Mem h) True 0 (unat (buffer_size b))
             (host_bytes B (staging B (n_elems b))) =
           Inr (status, dev, after_read B b (host_reads dev (mem_flags obj)) (contents obj))"
  using assms by (simp add: enqueueReadBuffer_def mem_object_def after_read_def)

lemma copy_to_host_via:
  assumes ok: "build_ok B"
    and b: "buff_container b = [Mem h]" "objects dev h = Some obj"
      "length (contents obj) = unat (n_elems b) * v B * sizeof_Rv B"
      "0 < unat (n_elems b)"
      "fits B (unat (n_elems b))"
  shows "copy_to_host B b dev xs ys zs =
     and_then (unpack_loop B (held B b (after_read B b (host_reads dev (mem_flags obj)) (contents obj)))
                 (unat (n_elems b)) 0 (xs, ys, zs))
       (\<lambda>dest. Inr (dev, dest))"
proof -
  have lst: "length (staging B (n_elems b)) = v B * unat (n_elems b)"
    using ok b(5) by (rule length_staging)
  have pos: "0 < length (staging B (n_elems b))"
    unfolding lst using b(4) v_pos [of B] by simp
  have lhb: "length (contents obj) = length (host_bytes B (staging B (n_elems b)))"
    using length_staging_bytes [OF ok b(5)] b(3) by simp
  obtain status where rd: "enqueueReadBuffer dev (Mem h) True 0 (unat (buffer_size b))
      (host_bytes B (staging B (n_elems b))) =
        Inr (status, dev, after_read B b (host_reads dev (mem_flags obj)) (contents obj))"
    using enqueueReadBuffer_staging [OF b(2) lhb] by blast
  show ?thesis
    unfolding copy_to_host_def Let_def using b(1) pos
    by (simp add: index_def rd held_def lst del: unpack_loop.simps)
qed

lemma copy_to_host_eq:
  assumes ok: "build_ok B"
    and b: "buff_container b = [Mem h]" "objects dev h = Some obj"
      "length (contents obj) = unat (n_elems b) * v B * sizeof_Rv B"
      "0 < unat (n_elems b)"
      "fits B (unat (n_elems b))"
    and len: "unat (n_elems b) \<le> length xs" "unat (n_elems b) \<le> length ys" "unat (n_elems b) \<le> length zs"
  shows "copy_to_host B b dev xs ys zs =
     Inr (dev,
       map (\<lambda>j. to_host B (component B (held B b (after_read B b (host_reads dev (mem_flags obj)) (contents obj))) j 0)) [0..<unat (n_elems b)] @ drop (unat (n_elems b)) xs,
       map (\<lambda>j. to_host B (component B (held B b (after_read B b (host_reads dev (mem_flags obj)) (contents obj))) j 1)) [0..<unat (n_elems b)] @ drop (unat (n_elems b)) ys,
       map (\<lambda>j. to_host B (component B (held B b (after_read B b (host_reads dev (mem_flags obj)) (contents obj))) j 2)) [0..<unat (n_elems b)] @ drop (unat (n_elems b)) zs)"
proof -
  let ?n = "unat (n_elems b)"
  let ?H = "held B b (after_read B b (host_reads dev (mem_flags obj)) (contents obj))"
  have ul: "unpack_loop B ?H ?n 0 (xs, ys, zs) =
      Inr (take 0 xs @ map (\<lambda>j. to_host B (component B ?H j 0)) [0..<?n] @ drop ?n xs,
           take 0 ys @ map (\<lambda>j. to_host B (component B ?H j 1)) [0..<?n] @ drop ?n ys,
           take 0 zs @ map (\<lambda>j. to_host B (component B ?H j 2)) [0..<?n] @ drop ?n zs)"
    using len fits_v [OF ok b(5)] by (intro unpack_loop_eq) simp_all
  show ?thesis
    unfolding copy_to_host_via [OF ok b] by (simp add: ul del: unpack_loop.simps)
qed

lemma after_read_take:
  assumes "length c' = length c" "take m c' = take m c"
  shows "take m (after_read B b rd c') = take m (after_read B b rd c)"
proof -
  let ?k = "unat (buffer_size b)"
  have e: "take (min m ?k) (take m c) = take (min m ?k) c" for c :: "byte list"
    by (simp add: min_def)
  have "take (min m ?k) (take m c') = take (min m ?k) (take m c)"
    by (simp only: assms(2))
  then have "take (min m ?k) c' = take (min m ?k) c"
    unfolding e .
  then have "take m (take ?k c') = take m (take ?k c)"
    by simp
  then show ?thesis
    using assms(1) by (simp add: after_read_def)
qed

subsection \<open>Results of \<open>and_then\<close>\<close>

lemma and_then_Inr_iff:
  "and_then m f = Inr y \<longleftrightarrow> (\<exists>x. m = Inr x \<and> f x = Inr y)"
  by (cases m) simp_all

lemma and_then_Inl_iff:
  "and_then m f = Inl e \<longleftrightarrow> m = Inl e \<or> (\<exists>x. m = Inr x \<and> f x = Inl e)"
  by (cases m) simp_all

subsection \<open>What \<^verbatim>\<open>copy_to_host\<close> can change\<close>

lemma assign_at_Inr: "assign_at xs i x e = Inr xs' \<Longrightarrow> xs' = xs[i := x]"
  by (simp add: assign_at_def split: if_splits)

lemma kept_from_refl: "kept_from n dest dest"
  by (simp add: kept_from_def split: prod.splits)

lemma kept_from_trans: "kept_from n d1 d2 \<Longrightarrow> kept_from n d2 d3 \<Longrightarrow> kept_from n d1 d3"
  by (auto simp: kept_from_def split: prod.splits)

lemma unpack_step_kept:
  assumes "unpack_step B buff i dest = Inr dest'" "i < n"
  shows "kept_from n dest dest'"
proof -
  obtain xs ys zs where d: "dest = (xs, ys, zs)"
    by (cases dest) auto
  obtain xs' ys' zs' where d': "dest' = (xs', ys', zs')"
    by (cases dest') auto
  from assms(1) have "\<exists>a b c. xs' = xs[i := a] \<and> ys' = ys[i := b] \<and> zs' = zs[i := c]"
    unfolding d d' unpack_step_def
    by (auto simp: and_then_Inr_iff dest!: assign_at_Inr)
  with assms(2) show ?thesis
    by (auto simp: kept_from_def d d')
qed

lemma unpack_loop_kept:
  "unpack_loop B buff n i dest = Inr dest' \<Longrightarrow> kept_from n dest dest'"
proof (induction B buff n i dest rule: unpack_loop.induct)
  case (1 B buff n i dest)
  show ?case
  proof (cases "i < n")
    case True
    show ?thesis
    proof (cases "unpack_step B buff i dest")
      case (Inl e)
      with True "1.prems" show ?thesis
        by (subst (asm) unpack_loop.simps) simp
    next
      case (Inr d)
      with True "1.prems" have "unpack_loop B buff n (Suc i) d = Inr dest'"
        by (subst (asm) unpack_loop.simps) simp
      with "1.IH" True Inr have "kept_from n d dest'"
        by blast
      moreover have "kept_from n dest d"
        using Inr True by (rule unpack_step_kept)
      ultimately show ?thesis
        by (rule kept_from_trans [rotated])
    qed
  next
    case False
    with "1.prems" have "dest' = dest"
      by (subst (asm) unpack_loop.simps) simp
    then show ?thesis
      by (simp add: kept_from_refl)
  qed
qed

lemma enqueueReadBuffer_device:
  "enqueueReadBuffer dev buf bl off k host = Inr (status, dev', mem) \<Longrightarrow> dev' = dev"
  by (auto simp: enqueueReadBuffer_def split: option.splits if_splits)

lemma copy_to_host_Inr:
  assumes "copy_to_host B b dev xs ys zs = Inr (dev', dest')"
  shows "dev' = dev \<and> kept_from (unat (n_elems b)) (xs, ys, zs) dest'"
  using assms unfolding copy_to_host_def Let_def
  by (auto simp: and_then_Inr_iff simp del: unpack_loop.simps
      dest: enqueueReadBuffer_device unpack_loop_kept)

subsection \<open>The uploading constructor\<close>

lemma length_concat_fixed:
  "(\<And>i. i < n \<Longrightarrow> length (f i) = m) \<Longrightarrow> length (concat (map f [0..<n])) = m * n"
  by (induction n) simp_all

lemma nth_concat_fixed:
  "(\<And>i. i < n \<Longrightarrow> length (f i) = m) \<Longrightarrow> j < n \<Longrightarrow> k < m \<Longrightarrow>
   concat (map f [0..<n]) ! (m * j + k) = f j ! k"
proof (induction n)
  case 0
  then show ?case by simp
next
  case (Suc n)
  have len: "length (concat (map f [0..<n])) = m * n"
    using Suc.prems(1) by (intro length_concat_fixed) simp
  show ?case
  proof (cases "j < n")
    case True
    then have "m * j + k < m * n"
    proof -
      from True have "Suc j \<le> n" by simp
      then have "m * Suc j \<le> m * n" by (rule mult_le_mono2)
      with Suc.prems(3) show ?thesis by simp
    qed
    with Suc True len show ?thesis
      by (simp add: nth_append)
  next
    case False
    with Suc.prems(2) have "j = n" by simp
    with len show ?thesis
      by (simp add: nth_append)
  qed
qed

lemma length_packed [simp]: "length (packed B xs ys zs) = v B * length xs"
  by (simp add: packed_def length_concat_fixed)

lemma packed_rows:
  "build_ok B \<Longrightarrow> r \<in> set (packed B xs ys zs) \<Longrightarrow> length r = Rv_lanes B"
  by (auto simp: packed_def packed_row_def Rv_init_def Rv_lanes_def build_ok_def split: if_splits)

lemma component_packed:
  assumes "j < length xs"
  shows "component B (packed B xs ys zs) j 0 = to_dev B (xs ! j) \<and>
         component B (packed B xs ys zs) j 1 = to_dev B (ys ! j) \<and>
         component B (packed B xs ys zs) j 2 = to_dev B (zs ! j)"
proof -
  have row: "\<And>k. k < v B \<Longrightarrow>
      packed B xs ys zs ! (v B * j + k) = packed_row B xs ys zs j ! k"
    unfolding packed_def using assms by (intro nth_concat_fixed) simp_all
  show ?thesis
  proof (cases "USE_VECTOR_TYPE B")
    case True
    then have "packed B xs ys zs ! j =
        Rv_init B [to_dev B (xs ! j), to_dev B (ys ! j), to_dev B (zs ! j)]"
      using row [of 0] by (simp add: v_def packed_row_def)
    then show ?thesis
      using True by (simp add: component_def Rv_init_def)
  next
    case False
    then have "packed B xs ys zs ! (3 * j + 0) = [to_dev B (xs ! j)]"
      "packed B xs ys zs ! (3 * j + 1) = [to_dev B (ys ! j)]"
      "packed B xs ys zs ! (3 * j + 2) = [to_dev B (zs ! j)]"
      using row [of 0] row [of 1] row [of 2] by (simp_all add: v_def packed_row_def)
    then show ?thesis
      using False by (simp add: component_def)
  qed
qed

lemma cl_Buffer_new_eq:
  "allocates dev fs (unat nbytes) \<Longrightarrow>
   cl_Buffer_new dev fs nbytes garbage =
     (Mem (next_handle dev),
      dev\<lparr>objects := (objects dev)(next_handle dev \<mapsto>
             \<lparr>refcount = 1, mem_flags = fs, contents = map garbage [0..<unat nbytes]\<rparr>),
          next_handle := Suc (next_handle dev),
          available := available dev - unat nbytes\<rparr>)"
  by (simp add: cl_Buffer_new_def clCreateBuffer_def allocates_def)

lemma enqueueWriteBuffer_returns:
  "nbytes \<le> length host \<Longrightarrow>
   \<exists>status dev'. enqueueWriteBuffer dev buf bl off nbytes host = Inr (status, dev')"
  by (auto simp: enqueueWriteBuffer_def split: option.splits)

lemma upload_sizes:
  assumes ok: "build_ok B" and fits: "fits B (length xs)"
  shows "unat (of_nat (length xs) :: size_t) = length xs"
    and "unat (of_nat (length xs) * of_nat (v B) * of_nat (sizeof_Rv B) :: size_t) =
           length xs * v B * sizeof_Rv B"
    and "length (host_bytes B (packed B xs ys zs)) = length xs * v B * sizeof_Rv B"
proof -
  show n: "unat (of_nat (length xs) :: size_t) = length xs"
    using fits_n [OF ok fits] by (simp add: unat_of_nat_len)
  show "unat (of_nat (length xs) * of_nat (v B) * of_nat (sizeof_Rv B) :: size_t) =
           length xs * v B * sizeof_Rv B"
    using unat_bsize [of B "of_nat (length xs)"] fits n by simp
  show "length (host_bytes B (packed B xs ys zs)) = length xs * v B * sizeof_Rv B"
    using length_host_bytes [OF ok, of "packed B xs ys zs"] packed_rows [OF ok]
    by (simp add: mult.commute)
qed

subsection \<open>The staging array of the uploading constructor\<close>


lemma pack_loop_upload:
  assumes ok: "build_ok B" and fits: "fits B (length xs)"
    and len: "length xs \<le> length ys" "length xs \<le> length zs"
  shows "pack_loop B xs ys zs (unat (of_nat (length xs) :: size_t)) 0 (staging B (of_nat (length xs)))
           = Inr (packed B xs ys zs)"
proof -
  let ?n = "of_nat (length xs) :: size_t"
  have n: "unat ?n = length xs"
    using fits_n [OF ok fits] by (simp add: unat_of_nat_len)
  have lst: "length (staging B ?n) = v B * length xs"
    using length_staging [OF ok, of ?n] fits n by simp
  show ?thesis
    using pack_loop_eq [of "length xs" xs ys zs B 0 "staging B ?n"] len lst fits_v [OF ok fits]
    by (simp add: packed_def n del: pack_loop.simps)
qed

lemma packed_take:
  "packed B xs ys zs = packed B xs (take (length xs) ys) (take (length xs) zs)"
proof -
  have "map (packed_row B xs ys zs) [0..<length xs] =
      map (packed_row B xs (take (length xs) ys) (take (length xs) zs)) [0..<length xs]"
    by (rule map_cong) (simp_all add: packed_row_def)
  then show ?thesis
    unfolding packed_def by (rule arg_cong)
qed

lemma packed_nonempty: "xs \<noteq> [] \<Longrightarrow> packed B xs ys zs \<noteq> []"
  using length_packed [of B xs ys zs] v_pos [of B] by (cases "packed B xs ys zs") simp_all

lemma Buffer3D_upload_eq:
  assumes ok: "build_ok B" and fits: "fits B (length xs)"
    and len: "length xs \<le> length ys" "length xs \<le> length zs"
    and ne: "xs \<noteq> []"
    and al: "allocates dev fs (length xs * v B * sizeof_Rv B)"
    and hw: "host_writes dev fs"
  shows "Buffer3D_upload B dev fs xs ys zs garbage =
           Inr (uploaded B dev xs, after_upload B dev fs xs ys zs)"
proof -
  let ?n = "of_nat (length xs) :: size_t"
  let ?bsize = "?n * of_nat (v B) * of_nat (sizeof_Rv B)"
  note sz = upload_sizes [OF ok fits]
  have pl: "pack_loop B xs ys zs (length xs) 0 (staging B ?n) = Inr (packed B xs ys zs)"
    using pack_loop_upload [OF ok fits len] by (simp add: sz del: pack_loop.simps)
  have new: "cl_Buffer_new dev fs ?bsize garbage =
     (Mem (next_handle dev),
      dev\<lparr>objects := (objects dev)(next_handle dev \<mapsto>
             \<lparr>refcount = 1, mem_flags = fs, contents = map garbage [0..<unat ?bsize]\<rparr>),
          next_handle := Suc (next_handle dev),
          available := available dev - unat ?bsize\<rparr>)"
    using al by (intro cl_Buffer_new_eq) (simp add: sz)
  show ?thesis
    unfolding Buffer3D_upload_def Let_def new
    by (simp add: assign_at_def index_def pl packed_nonempty [OF ne] sz hw
          enqueueWriteBuffer_def mem_object_def
          store_bytes_def uploaded_def after_upload_def del: pack_loop.simps)
qed

lemma Buffer3D_upload_returns:
  assumes ok: "build_ok B" and fits: "fits B (length xs)"
    and len: "length xs \<le> length ys" "length xs \<le> length zs"
    and ne: "xs \<noteq> []"
  shows "\<exists>b dev'. Buffer3D_upload B dev fs xs ys zs garbage = Inr (b, dev') \<and>
           n_elems b = of_nat (length xs)"
proof -
  let ?n = "of_nat (length xs) :: size_t"
  let ?bsize = "?n * of_nat (v B) * of_nat (sizeof_Rv B)"
  note sz = upload_sizes [OF ok fits]
  have pl: "pack_loop B xs ys zs (unat ?n) 0 (staging B ?n) = Inr (packed B xs ys zs)"
    using ok fits len by (rule pack_loop_upload)
  note pne = packed_nonempty [OF ne, of B ys zs]
  obtain buf dev1 where new: "cl_Buffer_new dev fs ?bsize garbage = (buf, dev1)"
    by (cases "cl_Buffer_new dev fs ?bsize garbage") auto
  obtain status dev2 where wr: "enqueueWriteBuffer dev1 buf True 0 (unat ?bsize)
      (host_bytes B (packed B xs ys zs)) = Inr (status, dev2)"
    using enqueueWriteBuffer_returns [of "unat ?bsize" "host_bytes B (packed B xs ys zs)" dev1 buf True 0]
    by (auto simp: sz)
  show ?thesis
    unfolding Buffer3D_upload_def Let_def new
    by (simp add: assign_at_def index_def pl pne wr del: pack_loop.simps)
qed

lemma Buffer3D_upload_take:
  assumes ok: "build_ok B" and fits: "fits B (length xs)"
    and len: "length xs \<le> length ys" "length xs \<le> length zs"
  shows "Buffer3D_upload B dev fs xs ys zs garbage =
         Buffer3D_upload B dev fs xs (take (length xs) ys) (take (length xs) zs) garbage"
proof -
  let ?n = "of_nat (length xs) :: size_t"
  have pl: "pack_loop B xs ys zs (unat ?n) 0 (staging B ?n) = Inr (packed B xs ys zs)"
    using ok fits len by (rule pack_loop_upload)
  have "pack_loop B xs (take (length xs) ys) (take (length xs) zs) (unat ?n) 0 (staging B ?n) =
      Inr (packed B xs (take (length xs) ys) (take (length xs) zs))"
    using ok fits len by (intro pack_loop_upload) simp_all
  then have pl': "pack_loop B xs (take (length xs) ys) (take (length xs) zs) (unat ?n) 0 (staging B ?n) =
      Inr (packed B xs ys zs)"
    using packed_take [of B xs ys zs] by simp
  show ?thesis
    unfolding Buffer3D_upload_def Let_def pl pl' ..
qed

subsection \<open>The concrete build\<close>

lemma length_le_bytes [simp]: "length (le_bytes k n) = k"
  by (induction k arbitrary: n) simp_all

lemma le_nat_le_bytes: "n < 256 ^ k \<Longrightarrow> le_nat (le_bytes k n) = n"
proof (induction k arbitrary: n)
  case 0
  then show ?case by simp
next
  case (Suc k)
  then have "n div 256 < 256 ^ k"
    by (simp add: less_mult_imp_div_less mult.commute)
  with Suc.IH have "le_nat (le_bytes k (n div 256)) = n div 256"
    by simp
  moreover have "unat (of_nat (n mod 256) :: byte) = n mod 256"
    by (simp add: unat_of_nat)
  ultimately show ?case
    by simp
qed

lemma dec32_enc32: "dec32 (enc32 w) = w"
proof -
  have "unat w < 256 ^ 4"
    using unsigned_less [of w, where 'a = nat] by simp
  then show ?thesis
    by (simp add: dec32_def enc32_def le_nat_le_bytes)
qed

lemma length_enc32: "length (enc32 w) = 4"
  by (simp add: enc32_def)

lemma dec64_enc64: "dec64 (enc64 w) = w"
proof -
  have "unat w < 256 ^ 8"
    using unsigned_less [of w, where 'a = nat] by simp
  then show ?thesis
    by (simp add: dec64_def enc64_def le_nat_le_bytes)
qed


lemma build_ok_float_build: "build_ok (float_build vec cl12)"
  by (simp add: build_ok_def float_build_def dec32_enc32 length_enc32)

lemma float_build_sizes:
  "v (float_build False c) = 3" "sizeof_Rv (float_build False c) = 4"
  "v (float_build True c) = 1" "sizeof_Rv (float_build True c) = 16"
  by (simp_all add: v_def sizeof_Rv_def Rv_lanes_def float_build_def)


lemma fits_float_build: "n < 2 ^ 32 \<Longrightarrow> fits (float_build vec c) n"
  by (cases vec) (simp_all add: fits_def float_build_sizes)

lemma build_ok_double_build: "build_ok (double_build vec cl12)"
  by (simp add: build_ok_def double_build_def dec64_enc64) (simp add: enc64_def)

lemma double_build_sizes:
  "v (double_build False c) = 3" "sizeof_Rv (double_build False c) = 8"
  "v (double_build True c) = 1" "sizeof_Rv (double_build True c) = 32"
  by (simp_all add: v_def sizeof_Rv_def Rv_lanes_def double_build_def)

lemma fits_double_build: "n < 2 ^ 32 \<Longrightarrow> fits (double_build vec c) n"
  by (cases vec) (simp_all add: fits_def double_build_sizes)

lemma allocates_no_objects: "0 < k \<Longrightarrow> k \<le> 2 ^ 30 \<Longrightarrow> allocates no_objects 0 k"
  by (simp add: allocates_def no_objects_def)

lemma upload_example:
  "Buffer3D_upload (float_build vec c) no_objects 0 [0x3F800000] [0x40000000] [0x40400000] (\<lambda>k. 0) =
     Inr (uploaded (float_build vec c) no_objects [0x3F800000],
          after_upload (float_build vec c) no_objects 0 [0x3F800000] [0x40000000] [0x40400000])"
proof (rule Buffer3D_upload_eq)
  show "build_ok (float_build vec c)"
    by (rule build_ok_float_build)
  show "fits (float_build vec c) (length [0x3F800000 :: 32 word])"
    by (rule fits_float_build) simp
  show "allocates no_objects 0
      (length [0x3F800000 :: 32 word] * v (float_build vec c) * sizeof_Rv (float_build vec c))"
    by (cases vec) (simp_all add: allocates_no_objects float_build_sizes)
  show "host_writes no_objects 0"
    by (simp add: no_objects_def)
qed simp_all

lemma Buffer3D_upload_fields:
  assumes "Buffer3D_upload B dev fs xs ys zs garbage = Inr (b, dev')"
  shows "length (buff_container b) = 1"
    and "n_elems b = of_nat (length xs)"
    and "buffer_size b = n_elems b * of_nat (v B) * of_nat (sizeof_Rv B)"
  using assms
  by (auto simp: Buffer3D_upload_def Let_def and_then_Inr_iff assign_at_def
      simp del: pack_loop.simps split: prod.splits)

subsection \<open>Which failure an operation can end with\<close>

lemma index_failure: "index xs i e = Inl e' \<Longrightarrow> e' = e"
  by (simp add: index_def split: if_splits)

lemma assign_at_failure: "assign_at xs i x e = Inl e' \<Longrightarrow> e' = e"
  by (simp add: assign_at_def split: if_splits)

lemma unpack_step_failure:
  "unpack_step B buff i dest = Inl e \<Longrightarrow> e = StagingIndex \<or> e = HostIndex"
  by (auto simp: unpack_step_def and_then_Inl_iff split: prod.splits
      dest!: index_failure assign_at_failure)

lemma unpack_loop_failure:
  "unpack_loop B buff n i dest = Inl e \<Longrightarrow> e = StagingIndex \<or> e = HostIndex"
proof (induction B buff n i dest rule: unpack_loop.induct)
  case (1 B buff n i dest)
  show ?case
  proof (cases "i < n")
    case True
    show ?thesis
    proof (cases "unpack_step B buff i dest")
      case (Inl e')
      with True "1.prems" have "e' = e"
        by (subst (asm) unpack_loop.simps) simp
      with Inl show ?thesis
        using unpack_step_failure by blast
    next
      case (Inr dest')
      with True "1.prems" have "unpack_loop B buff n (Suc i) dest' = Inl e"
        by (subst (asm) unpack_loop.simps) simp
      with "1.IH" True Inr show ?thesis
        by blast
    qed
  next
    case False
    with "1.prems" show ?thesis
      by (subst (asm) unpack_loop.simps) simp
  qed
qed

lemma read_write_failures:
  "enqueueReadBuffer dev buf bl off k host = Inl e \<Longrightarrow> e = HostOverrun"
  "enqueueWriteBuffer dev buf bl off k host = Inl e \<Longrightarrow> e = HostOverrun"
  by (auto simp: enqueueReadBuffer_def enqueueWriteBuffer_def split: option.splits if_splits)

lemma copy_to_host_container:
  assumes "length (buff_container b) = 1"
  shows "copy_to_host B b dev xs ys zs \<noteq> Inl ContainerIndex"
proof
  assume f: "copy_to_host B b dev xs ys zs = Inl ContainerIndex"
  from assms have "index (buff_container b) 0 ContainerIndex = Inr (buff_container b ! 0)"
    by (simp add: index_def)
  with f show False
    by (auto simp: copy_to_host_def Let_def and_then_Inl_iff simp del: unpack_loop.simps
        split: prod.splits dest!: index_failure read_write_failures unpack_loop_failure)
qed

lemma zero_buffer_container:
  assumes "length (buff_container b) = 1"
  shows "zero_buffer B b dev a \<noteq> Inl ContainerIndex"
proof
  assume f: "zero_buffer B b dev a = Inl ContainerIndex"
  from assms have "index (buff_container b) 0 ContainerIndex = Inr (buff_container b ! 0)"
    by (simp add: index_def)
  with f show False
    by (auto simp: zero_buffer_def Let_def and_then_Inl_iff split: if_splits prod.splits
        dest!: index_failure read_write_failures)
qed

lemma copy_to_dev_container:
  assumes "length (buff_container b) = 1" "length (buff_container dst) = 1"
  shows "copy_to_dev b dev dst \<noteq> Inl ContainerIndex"
proof
  assume f: "copy_to_dev b dev dst = Inl ContainerIndex"
  from assms have "index (buff_container b) 0 ContainerIndex = Inr (buff_container b ! 0)"
    "index (buff_container dst) 0 ContainerIndex = Inr (buff_container dst ! 0)"
    by (simp_all add: index_def)
  with f show False
    by (auto simp: copy_to_dev_def and_then_Inl_iff split: prod.splits)
qed

lemma Buffer3D_sized_eq:
  "Buffer3D_sized B v0 dev fs n garbage =
     Inr (\<lparr>buff_container = [fst (cl_Buffer_new dev fs (of_nat (v B) * n * of_nat (sizeof_Rv B)) garbage)],
           n_elems = n, buffer_size = n * ucast v0 * of_nat (sizeof_Rv B)\<rparr>,
          snd (cl_Buffer_new dev fs (of_nat (v B) * n * of_nat (sizeof_Rv B)) garbage))"
  by (simp add: Buffer3D_sized_def Let_def assign_at_def split_beta)

subsection \<open>Reading back what was uploaded\<close>

lemma held_uploaded:
  assumes "build_ok B" "unat (n_elems (uploaded B dev xs)) = length xs"
  shows "held B (uploaded B dev xs) (host_bytes B (packed B xs ys zs)) = packed B xs ys zs"
proof -
  have "bytes_host B (length (packed B xs ys zs)) (host_bytes B (packed B xs ys zs) @ []) =
      packed B xs ys zs"
    using assms(1) by (rule bytes_host_host_bytes) (rule packed_rows [OF assms(1)])
  with assms(2) show ?thesis
    by (simp add: held_def)
qed

lemma occupied_after_upload:
  assumes ok: "build_ok B" and fits: "fits B (length xs)" and ne: "xs \<noteq> []"
  shows "occupied B (after_upload B dev fs xs ys zs) (uploaded B dev xs)"
proof -
  note sz = upload_sizes [OF ok fits]
  have n: "unat (n_elems (uploaded B dev xs)) = length xs"
    using sz(1) by (simp add: uploaded_def)
  show ?thesis
  proof (rule occupiedI)
    show "buff_container (uploaded B dev xs) = [Mem (next_handle dev)]"
      by (simp add: uploaded_def)
    show "objects (after_upload B dev fs xs ys zs) (next_handle dev) =
        Some \<lparr>refcount = 1, mem_flags = fs, contents = host_bytes B (packed B xs ys zs)\<rparr>"
      by (simp add: after_upload_def)
    show "length (contents \<lparr>refcount = 1, mem_flags = fs, contents = host_bytes B (packed B xs ys zs)\<rparr>)
        = unat (n_elems (uploaded B dev xs)) * v B * sizeof_Rv B"
      by (simp add: n sz)
    show "0 < unat (n_elems (uploaded B dev xs))"
      using ne by (simp add: n)
    show "fits B (unat (n_elems (uploaded B dev xs)))"
      using fits by (simp add: n)
  qed
qed

lemma after_read_uploaded:
  assumes ok: "build_ok B" and fits: "fits B (length xs)"
  shows "after_read B (uploaded B dev xs) True (host_bytes B (packed B xs ys zs)) =
         host_bytes B (packed B xs ys zs)"
proof -
  note sz = upload_sizes [OF ok fits]
  have "length (host_bytes B (staging B (of_nat (length xs)))) = length xs * v B * sizeof_Rv B"
    using length_staging_bytes [OF ok, of "of_nat (length xs)"] fits by (simp add: sz)
  then show ?thesis
    by (simp add: after_read_def uploaded_def sz)
qed

lemma map_nth_upt: "map (\<lambda>j. f (ws ! j)) [0..<length ws] = map f ws"
  by (rule nth_equalityI) simp_all

lemma copy_to_host_after_upload:
  assumes ok: "build_ok B" and fits: "fits B (length xs)" and ne: "xs \<noteq> []"
    and hr: "host_reads dev fs"
    and len: "length xs \<le> length xs0" "length xs \<le> length ys0" "length xs \<le> length zs0"
  shows "copy_to_host B (uploaded B dev xs) (after_upload B dev fs xs ys zs) xs0 ys0 zs0 =
           Inr (after_upload B dev fs xs ys zs,
                map (\<lambda>j. to_host B (to_dev B (xs ! j))) [0..<length xs] @ drop (length xs) xs0,
                map (\<lambda>j. to_host B (to_dev B (ys ! j))) [0..<length xs] @ drop (length xs) ys0,
                map (\<lambda>j. to_host B (to_dev B (zs ! j))) [0..<length xs] @ drop (length xs) zs0)"
proof -
  let ?b = "uploaded B dev xs" and ?d = "after_upload B dev fs xs ys zs"
  let ?obj = "\<lparr>refcount = 1, mem_flags = fs, contents = host_bytes B (packed B xs ys zs)\<rparr>"
  note sz = upload_sizes [OF ok fits]
  have n: "unat (n_elems ?b) = length xs"
    using sz(1) by (simp add: uploaded_def)
  have c: "buff_container ?b = [Mem (next_handle dev)]" "objects ?d (next_handle dev) = Some ?obj"
    by (simp_all add: uploaded_def after_upload_def)
  have l: "length (contents ?obj) = unat (n_elems ?b) * v B * sizeof_Rv B"
    by (simp add: n sz)
  have rd: "host_reads ?d (mem_flags ?obj)"
    using hr by (simp add: after_upload_def)
  have h: "held B ?b (after_read B ?b (host_reads ?d (mem_flags ?obj)) (contents ?obj)) =
      packed B xs ys zs"
    unfolding eqTrueI [OF rd] using held_uploaded [OF ok n] after_read_uploaded [OF ok fits] by simp
  have e: "copy_to_host B ?b ?d xs0 ys0 zs0 =
     Inr (?d,
       map (\<lambda>j. to_host B (component B (held B ?b (after_read B ?b (host_reads ?d (mem_flags ?obj)) (contents ?obj))) j 0)) [0..<unat (n_elems ?b)] @ drop (unat (n_elems ?b)) xs0,
       map (\<lambda>j. to_host B (component B (held B ?b (after_read B ?b (host_reads ?d (mem_flags ?obj)) (contents ?obj))) j 1)) [0..<unat (n_elems ?b)] @ drop (unat (n_elems ?b)) ys0,
       map (\<lambda>j. to_host B (component B (held B ?b (after_read B ?b (host_reads ?d (mem_flags ?obj)) (contents ?obj))) j 2)) [0..<unat (n_elems ?b)] @ drop (unat (n_elems ?b)) zs0)"
  proof (rule copy_to_host_eq [OF ok c l])
    show "0 < unat (n_elems ?b)" using ne by (simp add: n)
    show "fits B (unat (n_elems ?b))" using fits by (simp add: n)
    show "unat (n_elems ?b) \<le> length xs0" "unat (n_elems ?b) \<le> length ys0"
      "unat (n_elems ?b) \<le> length zs0"
      using len by (simp_all add: n)
  qed
  have "map (\<lambda>j. to_host B (component B (packed B xs ys zs) j 0)) [0..<length xs] =
        map (\<lambda>j. to_host B (to_dev B (xs ! j))) [0..<length xs]"
    "map (\<lambda>j. to_host B (component B (packed B xs ys zs) j 1)) [0..<length xs] =
        map (\<lambda>j. to_host B (to_dev B (ys ! j))) [0..<length xs]"
    "map (\<lambda>j. to_host B (component B (packed B xs ys zs) j 2)) [0..<length xs] =
        map (\<lambda>j. to_host B (to_dev B (zs ! j))) [0..<length xs]"
    using component_packed [of _ xs B ys zs] by (auto intro!: map_cong)
  then show ?thesis
    unfolding e h n by (simp only:)
qed

subsection \<open>Device to device copy\<close>

lemma copy_to_dev_eq:
  assumes "buff_container A = [Mem ha]" "objects dev ha = Some oa"
    and "buff_container D = [Mem hb]" "objects dev hb = Some od"
    and "length (contents od) = length (contents oa)"
  shows "copy_to_dev A dev D =
    Inr (if length (contents oa) < unat (buffer_size A) \<or> (ha = hb \<and> 0 < unat (buffer_size A))
         then dev
         else dev\<lparr>objects := (objects dev)(hb \<mapsto> od\<lparr>contents :=
                take (unat (buffer_size A)) (contents oa) @
                drop (unat (buffer_size A)) (contents od)\<rparr>)\<rparr>)"
  using assms
  by (auto simp: copy_to_dev_def index_def enqueueCopyBuffer_def mem_object_def store_bytes_def
      finish_def min_def)

lemma same_size_same_n:
  assumes ok: "build_ok B"
    and "buffer_size A = n_elems A * of_nat (v B) * of_nat (sizeof_Rv B)" "fits B (unat (n_elems A))"
    and "buffer_size D = n_elems D * of_nat (v B) * of_nat (sizeof_Rv B)" "fits B (unat (n_elems D))"
    and "buffer_size D = buffer_size A"
  shows "n_elems D = n_elems A"
proof -
  have "unat (n_elems D) * (v B * sizeof_Rv B) = unat (n_elems A) * (v B * sizeof_Rv B)"
    using unat_bsize [OF assms(3)] unat_bsize [OF assms(5)] assms(2,4,6)
    by (simp add: mult.assoc)
  moreover have "0 < v B * sizeof_Rv B"
    using sizeof_Rv_pos [OF ok] v_pos [of B] by simp
  ultimately have "unat (n_elems D) = unat (n_elems A)"
    by simp
  then show ?thesis
    by (simp add: word_unat_eq_iff)
qed

lemma occupied_same_object:
  "buff_container b = [Mem h] \<Longrightarrow> objects dev' h = objects dev h \<Longrightarrow>
   occupied B dev b \<Longrightarrow> occupied B dev' b"
  by (simp add: occupied_def mem_object_def)

lemma map_sum_and_then_Inr:
  "map_sum id snd (and_then m (\<lambda>dest. Inr (d, dest))) = m"
  by (cases m) simp_all

subsection \<open>\<^verbatim>\<open>zero_buffer\<close> without the fill primitive\<close>

lemma take_concat_replicate:
  "k \<le> m \<Longrightarrow> take (k * length bs) (concat (replicate m bs)) = concat (replicate k bs)"
proof -
  assume "k \<le> m"
  then have "replicate m bs = replicate k bs @ replicate (m - k) bs"
    by (simp add: replicate_add [symmetric])
  then have "concat (replicate m bs) = concat (replicate k bs) @ concat (replicate (m - k) bs)"
    by simp
  moreover have "length (concat (replicate k bs)) = k * length bs"
    by (induction k) simp_all
  ultimately show ?thesis
    by simp
qed

lemma host_bytes_replicate: "host_bytes B (replicate m r) = concat (replicate m (Rv_bytes B r))"
  by (simp add: host_bytes_def)

lemma Rv_lanes_pos: "build_ok B \<Longrightarrow> 0 < Rv_lanes B"
  by (auto simp: build_ok_def Rv_lanes_def)

lemma Rv_init_zero: "build_ok B \<Longrightarrow> Rv_init B [zero B] = Rv_default B"
proof -
  assume "build_ok B"
  then obtain l where "Rv_lanes B = Suc l"
    using Rv_lanes_pos [of B] by (cases "Rv_lanes B") simp_all
  then show ?thesis
    by (simp add: Rv_init_def Rv_default_def)
qed

lemma length_Rv_bytes_default: "build_ok B \<Longrightarrow> length (Rv_bytes B (Rv_default B)) = sizeof_Rv B"
  by (simp add: length_Rv_bytes Rv_default_def sizeof_Rv_def)

lemma three_le_v_sizeof: "build_ok B \<Longrightarrow> 3 \<le> v B * sizeof_Rv B"
proof (cases "USE_VECTOR_TYPE B")
  case True
  assume "build_ok B"
  then have "3 * 1 \<le> lanes B * sizeof_scalar B"
    unfolding build_ok_def by (intro mult_le_mono) simp_all
  with True show ?thesis
    by (simp add: v_def sizeof_Rv_def Rv_lanes_def)
next
  case False
  assume "build_ok B"
  then have "3 * 1 \<le> 3 * sizeof_scalar B"
    unfolding build_ok_def by (intro mult_le_mono) simp_all
  with False show ?thesis
    by (simp add: v_def sizeof_Rv_def Rv_lanes_def)
qed

lemma fits_3n:
  assumes "build_ok B" "fits B n"
  shows "3 * n < 2 ^ 64"
proof -
  have "n * 3 \<le> n * (v B * sizeof_Rv B)"
    using three_le_v_sizeof [OF assms(1)] by (rule mult_le_mono2)
  also have "\<dots> < 2 ^ 64"
    using assms(2) by (simp add: fits_def mult.assoc)
  finally show ?thesis
    by (simp add: mult.commute)
qed

lemma component_default:
  assumes "build_ok B" "j < n" "k < 3"
  shows "component B (replicate (v B * n) (Rv_default B)) j k = zero B"
proof (cases "USE_VECTOR_TYPE B")
  case True
  with assms show ?thesis
    by (simp add: component_def v_def Rv_default_def Rv_lanes_def build_ok_def)
next
  case False
  from assms(2,3) have "3 * j + k < 3 * n"
    by simp
  with False assms(1) show ?thesis
    by (simp add: component_def v_def Rv_default_def Rv_lanes_def)
qed

lemma after_read_full:
  "length cs = unat (buffer_size b) \<Longrightarrow>
   length (host_bytes B (staging B (n_elems b))) \<le> unat (buffer_size b) \<Longrightarrow>
   after_read B b True cs = cs"
  by (simp add: after_read_def)

lemma zero_buffer_fallback_zeroes:
  assumes ok: "build_ok B" and nf: "\<not> CL_API_SUFFIX__VERSION_1_2 B" and occ: "occupied B dev b"
    and bsz: "buffer_size b = n_elems b * of_nat (v B) * of_nat (sizeof_Rv B)"
    and host: "host_readable dev b" "host_writable dev b"
    and len: "unat (n_elems b) \<le> length xs" "unat (n_elems b) \<le> length ys"
      "unat (n_elems b) \<le> length zs"
  shows "\<exists>dev'. zero_buffer B b dev a = Inr dev' \<and> occupied B dev' b \<and>
           copy_to_host B b dev' xs ys zs =
             Inr (dev',
                  replicate (unat (n_elems b)) (to_host B (zero B)) @ drop (unat (n_elems b)) xs,
                  replicate (unat (n_elems b)) (to_host B (zero B)) @ drop (unat (n_elems b)) ys,
                  replicate (unat (n_elems b)) (to_host B (zero B)) @ drop (unat (n_elems b)) zs)"
proof -
  let ?n = "unat (n_elems b)"
  from occ obtain h obj where b: "buff_container b = [Mem h]" "objects dev h = Some obj"
    "length (contents obj) = ?n * v B * sizeof_Rv B"
    "0 < ?n"
    "fits B ?n"
    by (rule occupiedD)
  let ?Z = "host_bytes B (replicate (v B * ?n) (Rv_default B))"
  let ?obj = "obj\<lparr>contents := ?Z\<rparr>"
  let ?dev = "dev\<lparr>objects := (objects dev)(h \<mapsto> ?obj)\<rparr>"
  from host b(1,2) have hrw: "host_reads dev (mem_flags obj)" "host_writes dev (mem_flags obj)"
    by (simp_all add: host_readable_def host_writable_def mem_object_def)
  have bs: "unat (buffer_size b) = ?n * v B * sizeof_Rv B"
    using bsz b(5) by (simp add: unat_bsize)
  have n3: "unat (3 * n_elems b) = 3 * ?n"
    using fits_3n [OF ok b(5)] by (simp add: unat_word_ariths)
  have vle: "v B * ?n \<le> 3 * ?n"
    by (simp add: v_def)
  have lr: "length (Rv_bytes B (Rv_default B)) = sizeof_Rv B"
    using ok by (rule length_Rv_bytes_default)
  have lZ: "length ?Z = ?n * v B * sizeof_Rv B"
    using length_host_bytes [OF ok, of "replicate (v B * ?n) (Rv_default B)"]
    by (simp add: Rv_default_def mult.commute)
  have lH: "length (host_bytes B (replicate (3 * ?n) (Rv_default B))) = 3 * ?n * sizeof_Rv B"
    using length_host_bytes [OF ok, of "replicate (3 * ?n) (Rv_default B)"]
    by (simp add: Rv_default_def)
  have "v B * ?n * sizeof_Rv B \<le> 3 * ?n * sizeof_Rv B"
    using vle by (rule mult_le_mono1)
  then have le: "unat (buffer_size b) \<le> length (host_bytes B (replicate (3 * ?n) (Rv_default B)))"
    unfolding lH bs by (simp add: mult.commute)
  have "take (v B * ?n * length (Rv_bytes B (Rv_default B)))
          (concat (replicate (3 * ?n) (Rv_bytes B (Rv_default B)))) =
        concat (replicate (v B * ?n) (Rv_bytes B (Rv_default B)))"
    using vle by (rule take_concat_replicate)
  then have tk: "take (unat (buffer_size b)) (host_bytes B (replicate (3 * ?n) (Rv_default B))) = ?Z"
    unfolding lr bs host_bytes_replicate by (simp add: mult.commute)
  have wr: "enqueueWriteBuffer dev (Mem h) False 0 (unat (buffer_size b))
              (host_bytes B (replicate (3 * ?n) (Rv_default B))) = Inr (CL_SUCCESS, ?dev)"
    using b(2,3) le lZ bs hrw
    by (simp add: enqueueWriteBuffer_def mem_object_def store_bytes_def tk [unfolded bs])
  have z: "zero_buffer B b dev a = Inr ?dev"
    using nf b(1,4) wr
    by (simp add: zero_buffer_def Let_def index_def n3 Rv_init_zero [OF ok] finish_def)
  have ob: "objects ?dev h = Some ?obj"
    by simp
  have lo: "length (contents ?obj) = ?n * v B * sizeof_Rv B"
    using lZ by simp
  have occ': "occupied B ?dev b"
    using b(1) ob lo b(4,5) by (rule occupiedI)
  have rd: "host_reads ?dev (mem_flags ?obj)"
    using hrw by simp
  have "after_read B b True (contents ?obj) = contents ?obj"
    using length_staging_bytes [OF ok b(5)] lo bs by (intro after_read_full) simp_all
  then have ar: "after_read B b (host_reads ?dev (mem_flags ?obj)) (contents ?obj) = ?Z"
    unfolding eqTrueI [OF rd] by simp
  have "bytes_host B (length (replicate (v B * ?n) (Rv_default B))) (?Z @ []) =
      replicate (v B * ?n) (Rv_default B)"
    using ok by (rule bytes_host_host_bytes) (simp add: Rv_default_def)
  then have h: "held B b (after_read B b (host_reads ?dev (mem_flags ?obj)) (contents ?obj)) =
      replicate (v B * ?n) (Rv_default B)"
    unfolding ar by (simp add: held_def)
  have m: "map (\<lambda>j. to_host B (component B (replicate (v B * ?n) (Rv_default B)) j k)) [0..<?n] =
      replicate ?n (to_host B (zero B))" if "k < 3" for k
  proof -
    have "map (\<lambda>j. to_host B (component B (replicate (v B * ?n) (Rv_default B)) j k)) [0..<?n] =
        map (\<lambda>j. to_host B (zero B)) [0..<?n]"
      using component_default [OF ok _ that] by (intro map_cong) simp_all
    then show ?thesis
      by (simp add: map_replicate_const)
  qed
  have "copy_to_host B b ?dev xs ys zs =
      Inr (?dev,
        map (\<lambda>j. to_host B (component B (held B b (after_read B b (host_reads ?dev (mem_flags ?obj)) (contents ?obj))) j 0)) [0..<?n] @ drop ?n xs,
        map (\<lambda>j. to_host B (component B (held B b (after_read B b (host_reads ?dev (mem_flags ?obj)) (contents ?obj))) j 1)) [0..<?n] @ drop ?n ys,
        map (\<lambda>j. to_host B (component B (held B b (after_read B b (host_reads ?dev (mem_flags ?obj)) (contents ?obj))) j 2)) [0..<?n] @ drop ?n zs)"
    using ok b(1) ob lo b(4,5) len by (rule copy_to_host_eq)
  then have "copy_to_host B b ?dev xs ys zs =
      Inr (?dev,
        replicate ?n (to_host B (zero B)) @ drop ?n xs,
        replicate ?n (to_host B (zero B)) @ drop ?n ys,
        replicate ?n (to_host B (zero B)) @ drop ?n zs)"
    unfolding h using m [of 0] m [of 1] m [of 2] by simp
  with z occ' show ?thesis
    by blast
qed

subsection \<open>\<^verbatim>\<open>copy_to_host\<close> without a memory object\<close>

lemma copy_to_host_rejected:
  assumes ok: "build_ok B" and c: "buff_container b = [buf]" and m: "mem_object dev buf = None"
    and pos: "0 < unat (n_elems b)" and fits: "fits B (unat (n_elems b))"
    and len: "unat (n_elems b) \<le> length xs" "unat (n_elems b) \<le> length ys"
      "unat (n_elems b) \<le> length zs"
  shows "copy_to_host B b dev xs ys zs =
           Inr (dev,
                replicate (unat (n_elems b)) (to_host B (zero B)) @ drop (unat (n_elems b)) xs,
                replicate (unat (n_elems b)) (to_host B (zero B)) @ drop (unat (n_elems b)) ys,
                replicate (unat (n_elems b)) (to_host B (zero B)) @ drop (unat (n_elems b)) zs)"
proof -
  let ?n = "unat (n_elems b)"
  let ?S = "replicate (v B * ?n) (Rv_default B)"
  have st: "staging B (n_elems b) = ?S"
    using fits_v [OF ok fits] by (simp add: staging_def unat_vn)
  have ne: "?S \<noteq> []"
    using pos v_pos [of B] by simp
  have rd: "enqueueReadBuffer dev buf True 0 k host = Inr (CL_INVALID_MEM_OBJECT, dev, host)"
    for k host
    by (simp add: enqueueReadBuffer_def m)
  have "bytes_host B (length ?S) (host_bytes B ?S @ []) = ?S"
    using ok by (rule bytes_host_host_bytes) (simp add: Rv_default_def)
  then have bh: "bytes_host B (v B * ?n) (host_bytes B ?S) = ?S"
    by simp
  have ul: "unpack_loop B ?S ?n 0 (xs, ys, zs) =
      Inr (take 0 xs @ map (\<lambda>j. to_host B (component B ?S j 0)) [0..<?n] @ drop ?n xs,
           take 0 ys @ map (\<lambda>j. to_host B (component B ?S j 1)) [0..<?n] @ drop ?n ys,
           take 0 zs @ map (\<lambda>j. to_host B (component B ?S j 2)) [0..<?n] @ drop ?n zs)"
    using len fits_v [OF ok fits] by (intro unpack_loop_eq) simp_all
  have z: "map (\<lambda>j. to_host B (component B ?S j k)) [0..<?n] = replicate ?n (to_host B (zero B))"
    if "k < 3" for k
  proof -
    have "map (\<lambda>j. to_host B (component B ?S j k)) [0..<?n] = map (\<lambda>j. to_host B (zero B)) [0..<?n]"
      using component_default [OF ok _ that] by (intro map_cong) simp_all
    then show ?thesis
      by (simp add: map_replicate_const)
  qed
  have "copy_to_host B b dev xs ys zs =
      Inr (dev,
           map (\<lambda>j. to_host B (component B ?S j 0)) [0..<?n] @ drop ?n xs,
           map (\<lambda>j. to_host B (component B ?S j 1)) [0..<?n] @ drop ?n ys,
           map (\<lambda>j. to_host B (component B ?S j 2)) [0..<?n] @ drop ?n zs)"
    unfolding copy_to_host_def Let_def st using c ne
    by (simp add: index_def rd bh ul del: unpack_loop.simps replicate.simps)
  then show ?thesis
    using z [of 0] z [of 1] z [of 2] by simp
qed

subsection \<open>\<^verbatim>\<open>zero_buffer\<close> with the fill primitive\<close>

lemma length_fill_pattern:
  "a \<noteq> [] \<Longrightarrow> length (take k (concat (replicate k a))) = k"
proof -
  assume "a \<noteq> []"
  then have "1 \<le> length a"
    by (cases a) simp_all
  then have "k * 1 \<le> k * length a"
    by (rule mult_le_mono2)
  moreover have "length (concat (replicate k a)) = k * length a"
    by (induction k) simp_all
  ultimately show ?thesis
    by simp
qed

lemma zero_buffer_fill_eq:
  assumes "CL_API_SUFFIX__VERSION_1_2 B" "buff_container b = [Mem h]" "objects dev h = Some obj"
  shows "zero_buffer B b dev a =
    Inr (if length (contents obj) < sizeof_Rv B + unat (of_nat (v B) * n_elems b) \<or>
            length a \<notin> set [1, 2, 4, 8, 16, 32, 64, 128] \<or>
            sizeof_Rv B mod length a \<noteq> 0 \<or> unat (of_nat (v B) * n_elems b) mod length a \<noteq> 0
         then dev
         else store_bytes dev h obj (sizeof_Rv B)
                (take (unat (of_nat (v B) * n_elems b))
                   (concat (replicate (unat (of_nat (v B) * n_elems b)) a))))"
  using assms
  by (simp add: zero_buffer_def index_def enqueueFillBuffer_def mem_object_def finish_def
      del: length_take set_simps)

lemma held_first:
  "0 < v B * unat (n_elems b) \<Longrightarrow> held B b bs ! 0 = bytes_Rv B (take (sizeof_Rv B) bs)"
  by (cases "v B * unat (n_elems b)") (simp_all add: held_def bytes_host_def)

lemma component_first: "component B buff 0 0 = buff ! 0 ! 0"
  by (simp add: component_def)

subsection \<open>The sized constructor\<close>

text \<open>A buffer of the sized constructor is occupied where the platform allocates its
  memory object, whatever the storage of \<^verbatim>\<open>v\<close> held before \<^verbatim>\<open>v\<close> was initialised.\<close>

lemma occupied_after_sized:
  assumes ok: "build_ok B" and fits: "fits B (unat n)" and pos: "0 < unat n"
    and al: "allocates dev fs (unat n * v B * sizeof_Rv B)"
    and c: "Buffer3D_sized B v0 dev fs n garbage = Inr (b, dev')"
  shows "occupied B dev' b"
proof -
  let ?k = "of_nat (v B) * n * of_nat (sizeof_Rv B) :: size_t"
  have kk: "?k = n * of_nat (v B) * of_nat (sizeof_Rv B)"
    by (simp add: mult.commute)
  have k: "unat ?k = unat n * v B * sizeof_Rv B"
    unfolding kk using fits by (rule unat_bsize)
  have new: "cl_Buffer_new dev fs ?k garbage =
     (Mem (next_handle dev),
      dev\<lparr>objects := (objects dev)(next_handle dev \<mapsto>
             \<lparr>refcount = 1, mem_flags = fs, contents = map garbage [0..<unat ?k]\<rparr>),
          next_handle := Suc (next_handle dev),
          available := available dev - unat ?k\<rparr>)"
    using al by (intro cl_Buffer_new_eq) (simp add: k)
  from c have b: "b = \<lparr>buff_container = [Mem (next_handle dev)], n_elems = n,
           buffer_size = n * ucast v0 * of_nat (sizeof_Rv B)\<rparr>"
    and d: "dev' = snd (cl_Buffer_new dev fs ?k garbage)"
    by (simp_all add: Buffer3D_sized_eq new)
  show ?thesis
  proof (rule occupiedI)
    show "buff_container b = [Mem (next_handle dev)]"
      by (simp add: b)
    show "objects dev' (next_handle dev) =
        Some \<lparr>refcount = 1, mem_flags = fs, contents = map garbage [0..<unat ?k]\<rparr>"
      by (simp add: d new)
    show "length (contents \<lparr>refcount = 1, mem_flags = fs, contents = map garbage [0..<unat ?k]\<rparr>)
        = unat (n_elems b) * v B * sizeof_Rv B"
      by (simp add: b k)
    show "0 < unat (n_elems b)"
      using pos by (simp add: b)
    show "fits B (unat (n_elems b))"
      using fits by (simp add: b)
  qed
qed

lemma cl_Buffer_new_no_objects:
  "0 < unat k \<Longrightarrow> unat k \<le> 2 ^ 30 \<Longrightarrow>
   cl_Buffer_new no_objects 0 k garbage =
     (Mem 0, \<lparr>objects = (\<lambda>h. None)(0 \<mapsto> \<lparr>refcount = 1, mem_flags = 0,
                                            contents = map garbage [0..<unat k]\<rparr>),
              next_handle = 1, available = 2 ^ 30 - unat k,
              valid_flags = (\<lambda>fs. fs = 0 \<or> fs = 1 \<or> fs = 2 \<or> fs = 4),
              host_reads = (\<lambda>fs. True), host_writes = (\<lambda>fs. True)\<rparr>)"
  by (simp add: cl_Buffer_new_def clCreateBuffer_def no_objects_def)

section \<open>The empty buffer\<close>

text \<open>
  C7. The default constructor is a plain value: it has no failure result and takes no
  device, so it allocates nothing. Its container is empty and \<open>n_elems\<close> and
  \<open>buffer_size\<close> are 0. \<^verbatim>\<open>free()\<close> on it changes neither the buffer nor any device.
\<close>

theorem default_constructed_is_empty:
  "buff_container Buffer3D_default = [] \<and> n_elems Buffer3D_default = 0 \<and>
   buffer_size Buffer3D_default = 0 \<and> free Buffer3D_default dev = (Buffer3D_default, dev)"
  by (simp add: Buffer3D_default_def free_def)

section \<open>\<^verbatim>\<open>free\<close>\<close>

text \<open>
  C4, as the code has it. \<^verbatim>\<open>free()\<close> empties the container and nothing else: \<open>n_elems\<close>
  and \<open>buffer_size\<close> keep their values. On a buffer whose container is already empty
  it changes neither the buffer nor the device. The reference the buffer held is dropped
  at once: the memory object of a buffer that held the only reference is gone from the
  device, otherwise its reference count is one less.
\<close>

theorem free_keeps_sizes_and_releases:
  "buff_container (fst (free b dev)) = [] \<and>
   n_elems (fst (free b dev)) = n_elems b \<and>
   buffer_size (fst (free b dev)) = buffer_size b \<and>
   (buff_container b = [] \<longrightarrow> free b dev = (b, dev)) \<and>
   (buff_container b = [Mem h] \<and> objects dev h = Some obj \<longrightarrow>
      objects (snd (free b dev)) h =
        (if refcount obj \<le> 1 then None else Some (obj\<lparr>refcount := refcount obj - 1\<rparr>)))"
  by (simp add: free_def cl_Buffer_release_def)

theorem free_keeps_sizes_and_releases_witness:
  "buff_container (uploaded (float_build False False) no_objects [0x3F800000]) = [Mem 0] \<and>
   objects (after_upload (float_build False False) no_objects 0 [0x3F800000] [0x40000000] [0x40400000]) 0
     = Some \<lparr>refcount = 1, mem_flags = 0,
             contents = host_bytes (float_build False False)
               (packed (float_build False False) [0x3F800000] [0x40000000] [0x40400000])\<rparr> \<and>
   objects (snd (free (uploaded (float_build False False) no_objects [0x3F800000])
              (after_upload (float_build False False) no_objects 0 [0x3F800000] [0x40000000] [0x40400000]))) 0
     = None \<and>
   n_elems (fst (free (uploaded (float_build False False) no_objects [0x3F800000])
              (after_upload (float_build False False) no_objects 0 [0x3F800000] [0x40000000] [0x40400000]))) = 1"
proof -
  let ?b = "uploaded (float_build False False) no_objects [0x3F800000]"
  let ?d = "after_upload (float_build False False) no_objects 0 [0x3F800000] [0x40000000] [0x40400000]"
  let ?obj = "\<lparr>refcount = 1, mem_flags = 0,
             contents = host_bytes (float_build False False)
               (packed (float_build False False) [0x3F800000] [0x40000000] [0x40400000])\<rparr>"
  have c: "buff_container ?b = [Mem 0]"
    by (simp add: uploaded_def no_objects_def)
  have o: "objects ?d 0 = Some ?obj"
    by (simp add: after_upload_def no_objects_def)
  have n: "n_elems ?b = 1"
    by (simp add: uploaded_def)
  from free_keeps_sizes_and_releases [of ?b ?d 0 ?obj] c o n show ?thesis
    by simp
qed

text \<open>
  C4 as stated fails: after uploading one element (1.0, 2.0, 3.0) in the interleaved
  float build and calling \<^verbatim>\<open>free()\<close>, \<open>n_elems\<close> is still 1 and \<open>buffer_size\<close> still 12.
\<close>

theorem free_keeps_n_elems_counterexample:
  "(case Buffer3D_upload (float_build False False) no_objects 0 [0x3F800000] [0x40000000] [0x40400000] (\<lambda>k. 0) of
      Inl e \<Rightarrow> False
    | Inr (b, dev) \<Rightarrow> n_elems (fst (free b dev)) = 1 \<and> buffer_size (fst (free b dev)) = 12)"
  by (simp add: upload_example free_def uploaded_def float_build_sizes)



section \<open>\<open>buffer_size\<close> after construction\<close>

text \<open>
  C3, as the code has it. After the default constructor \<open>n_elems\<close> and \<open>buffer_size\<close> are
  0. After the uploading constructor \<open>n_elems\<close> is \<^verbatim>\<open>xs.size()\<close> and \<open>buffer_size\<close> is
  \<^verbatim>\<open>n_elems * v * sizeof(Rv)\<close> in \<^verbatim>\<open>size_t\<close> arithmetic: \<^verbatim>\<open>n_elems * 3 * sizeof(T)\<close>
  in the interleaved build, \<^verbatim>\<open>n_elems * sizeof(Rv)\<close> for the vector type \<^verbatim>\<open>Rv\<close> in the
  vector build.
\<close>

theorem buffer_size_after_construction:
  "n_elems Buffer3D_default = 0 \<and> buffer_size Buffer3D_default = 0 \<and>
   (Buffer3D_upload B dev fs xs ys zs garbage = Inr (b, dev') \<longrightarrow>
      n_elems b = of_nat (length xs) \<and>
      buffer_size b = n_elems b * of_nat (v B) * of_nat (sizeof_Rv B) \<and>
      (\<not> USE_VECTOR_TYPE B \<longrightarrow> buffer_size b = n_elems b * 3 * of_nat (sizeof_scalar B)) \<and>
      (USE_VECTOR_TYPE B \<longrightarrow> buffer_size b = n_elems b * of_nat (lanes B * sizeof_scalar B)))"
proof -
  have "buffer_size b = n_elems b * 3 * of_nat (sizeof_scalar B)"
    if "buffer_size b = n_elems b * of_nat (v B) * of_nat (sizeof_Rv B)" "\<not> USE_VECTOR_TYPE B"
    using that by (simp add: v_def sizeof_Rv_def Rv_lanes_def)
  moreover have "buffer_size b = n_elems b * of_nat (lanes B * sizeof_scalar B)"
    if "buffer_size b = n_elems b * of_nat (v B) * of_nat (sizeof_Rv B)" "USE_VECTOR_TYPE B"
    using that by (simp add: v_def sizeof_Rv_def Rv_lanes_def)
  ultimately show ?thesis
    using Buffer3D_upload_fields [of B dev fs xs ys zs garbage b dev']
    by (auto simp: Buffer3D_default_def)
qed

theorem buffer_size_after_construction_witness:
  "Buffer3D_upload (float_build True False) no_objects 0 [0x3F800000] [0x40000000] [0x40400000] (\<lambda>k. 0) =
     Inr (uploaded (float_build True False) no_objects [0x3F800000],
          after_upload (float_build True False) no_objects 0 [0x3F800000] [0x40000000] [0x40400000]) \<and>
   n_elems (uploaded (float_build True False) no_objects [0x3F800000]) = 1 \<and>
   buffer_size (uploaded (float_build True False) no_objects [0x3F800000]) = 16"
  using buffer_size_after_construction
    [of "float_build True False" no_objects 0 "[0x3F800000]" "[0x40000000]" "[0x40400000]" "\<lambda>k. 0"
        "uploaded (float_build True False) no_objects [0x3F800000]"
        "after_upload (float_build True False) no_objects 0 [0x3F800000] [0x40000000] [0x40400000]"]
    upload_example [of True False]
  by (simp add: uploaded_def float_build_sizes)

text \<open>
  C3 as stated fails twice. In the vector float build one uploaded element gives
  \<open>buffer_size = 16\<close>, the size of a \<^verbatim>\<open>cl_float3\<close>, not \<open>1 * 3 * 4\<close>. And the sized
  constructor computes \<open>buffer_size\<close> from \<^verbatim>\<open>v\<close> before \<^verbatim>\<open>v\<close> is initialised: where that
  storage held 0, five elements give \<open>buffer_size = 0\<close>.
\<close>

theorem buffer_size_counterexample:
  "(case Buffer3D_upload (float_build True False) no_objects 0 [0x3F800000] [0x40000000] [0x40400000] (\<lambda>k. 0) of
      Inl e \<Rightarrow> False
    | Inr (b, dev) \<Rightarrow>
        n_elems b = 1 \<and> buffer_size b = 16 \<and>
        buffer_size b \<noteq> n_elems b * 3 * of_nat (sizeof_scalar (float_build True False))) \<and>
   (case Buffer3D_sized (float_build False False) 0 no_objects 0 5 (\<lambda>k. 0) of
      Inl e \<Rightarrow> False
    | Inr (b, dev) \<Rightarrow>
        n_elems b = 5 \<and> buffer_size b = 0 \<and>
        buffer_size b \<noteq> n_elems b * 3 * of_nat (sizeof_scalar (float_build False False)))"
  by (simp add: upload_example uploaded_def float_build_sizes Buffer3D_sized_eq)
    (simp add: float_build_def)

section \<open>The container of an occupied buffer\<close>

text \<open>
  C9. A buffer that either sized constructor returns holds exactly one element in its
  container, whether or not the platform allocated its memory object, so
  \<^verbatim>\<open>buff_container[0]\<close> is in bounds: \<^verbatim>\<open>buffer()\<close> returns that element, and
  \<^verbatim>\<open>copy_to_host\<close>, \<^verbatim>\<open>zero_buffer\<close> and \<^verbatim>\<open>copy_to_dev\<close> (as source or as destination, the
  other buffer holding one element too) never end in the failure of that index, on any
  device and for any arguments. The instances are the sized constructor for five
  elements, and for no element, where the platform rejects the allocation and the one
  element of the container is the null \<^verbatim>\<open>cl::Buffer\<close>.
\<close>

theorem occupied_container_has_one_element:
  assumes "Buffer3D_sized B v0 dev fs n garbage = Inr (b, dev') \<or>
           Buffer3D_upload B dev fs xs ys zs garbage = Inr (b, dev')"
  shows "length (buff_container b) = 1 \<and>
         buffer b = Inr (buff_container b ! 0) \<and>
         copy_to_host B b d xs' ys' zs' \<noteq> Inl ContainerIndex \<and>
         zero_buffer B b d a \<noteq> Inl ContainerIndex \<and>
         (length (buff_container dst) = 1 \<longrightarrow>
            copy_to_dev b d dst \<noteq> Inl ContainerIndex \<and> copy_to_dev dst d b \<noteq> Inl ContainerIndex)"
proof -
  from assms have l: "length (buff_container b) = 1"
    by (auto simp: Buffer3D_sized_eq dest: Buffer3D_upload_fields(1))
  then have "buffer b = Inr (buff_container b ! 0)"
    by (simp add: buffer_def index_def)
  with l show ?thesis
    using copy_to_host_container [OF l, of B d xs' ys' zs'] zero_buffer_container [OF l, of B d a]
      copy_to_dev_container [OF l, of dst d] copy_to_dev_container [OF _ l, of dst d]
    by simp
qed

theorem occupied_container_has_one_element_witness:
  "Buffer3D_sized (float_build False False) 3 no_objects 0 5 (\<lambda>k. 0) =
     Inr (\<lparr>buff_container = [Mem 0], n_elems = 5, buffer_size = 60\<rparr>,
          snd (cl_Buffer_new no_objects 0 60 (\<lambda>k. 0))) \<and>
   buffer \<lparr>buff_container = [Mem 0], n_elems = 5, buffer_size = 60\<rparr> = Inr (Mem 0) \<and>
   copy_to_host (float_build False False) \<lparr>buff_container = [Mem 0], n_elems = 5, buffer_size = 60\<rparr>
       no_objects [] [] [] \<noteq> Inl ContainerIndex \<and>
   Buffer3D_sized (float_build False False) 3 no_objects 0 0 (\<lambda>k. 0) =
     Inr (\<lparr>buff_container = [Null], n_elems = 0, buffer_size = 0\<rparr>, no_objects) \<and>
   buffer \<lparr>buff_container = [Null], n_elems = 0, buffer_size = 0\<rparr> = Inr Null \<and>
   zero_buffer (float_build False False) \<lparr>buff_container = [Null], n_elems = 0, buffer_size = 0\<rparr>
       no_objects [] \<noteq> Inl ContainerIndex"
proof -
  have s: "Buffer3D_sized (float_build False False) 3 no_objects 0 5 (\<lambda>k. 0) =
     Inr (\<lparr>buff_container = [Mem 0], n_elems = 5, buffer_size = 60\<rparr>,
          snd (cl_Buffer_new no_objects 0 60 (\<lambda>k. 0)))"
    by (simp add: Buffer3D_sized_eq float_build_sizes cl_Buffer_new_no_objects)
  have t: "Buffer3D_sized (float_build False False) 3 no_objects 0 0 (\<lambda>k. 0) =
     Inr (\<lparr>buff_container = [Null], n_elems = 0, buffer_size = 0\<rparr>, no_objects)"
    by (simp add: Buffer3D_sized_eq float_build_sizes cl_Buffer_new_def clCreateBuffer_def
        no_objects_def)
  from occupied_container_has_one_element
    [of "float_build False False" 3 no_objects 0 5 "\<lambda>k. 0"
        "\<lparr>buff_container = [Mem 0], n_elems = 5, buffer_size = 60\<rparr>"
        "snd (cl_Buffer_new no_objects 0 60 (\<lambda>k. 0))" "[]" "[]" "[]" no_objects "[]" "[]" "[]"]
    occupied_container_has_one_element
    [of "float_build False False" 3 no_objects 0 0 "\<lambda>k. 0"
        "\<lparr>buff_container = [Null], n_elems = 0, buffer_size = 0\<rparr>"
        no_objects "[]" "[]" "[]" no_objects "[]" "[]" "[]" "[]"]
    s t show ?thesis
    by simp
qed

section \<open>What the uploading constructor packs\<close>



section \<open>The uploading constructor on longer \<open>ys\<close> and \<open>zs\<close>\<close>

text \<open>
  C10, as the code has it. The element count is \<^verbatim>\<open>xs.size()\<close> alone, and for a non-empty
  \<open>xs\<close> the constructor is defined (it returns a buffer, no index is out of range)
  whenever \<open>ys\<close> and \<open>zs\<close> are at least as long as \<open>xs\<close>, whether or not the platform
  allocates and writes the buffer: what lies beyond the first \<^verbatim>\<open>xs.size()\<close> elements of \<open>ys\<close> and
  \<open>zs\<close> is never read, the result is that of the truncated vectors.
\<close>

theorem upload_defined_on_longer_ys_zs:
  assumes "build_ok B" "fits B (length xs)" "xs \<noteq> []"
    and "length xs \<le> length ys" "length xs \<le> length zs"
  shows "(\<exists>b dev'. Buffer3D_upload B dev fs xs ys zs garbage = Inr (b, dev') \<and>
            n_elems b = of_nat (length xs)) \<and>
         Buffer3D_upload B dev fs xs ys zs garbage =
           Buffer3D_upload B dev fs xs (take (length xs) ys) (take (length xs) zs) garbage \<and>
         (allocates dev fs (length xs * v B * sizeof_Rv B) \<and> host_writes dev fs \<longrightarrow>
            Buffer3D_upload B dev fs xs ys zs garbage =
              Inr (uploaded B dev xs,
                   after_upload B dev fs xs (take (length xs) ys) (take (length xs) zs)))"
proof -
  have a: "after_upload B dev fs xs (take (length xs) ys) (take (length xs) zs) =
      after_upload B dev fs xs ys zs"
    using packed_take [of B xs ys zs] by (simp add: after_upload_def)
  have 1: "\<exists>b dev'. Buffer3D_upload B dev fs xs ys zs garbage = Inr (b, dev') \<and>
            n_elems b = of_nat (length xs)"
    using assms(1,2,4,5,3) by (rule Buffer3D_upload_returns)
  have 2: "Buffer3D_upload B dev fs xs ys zs garbage =
           Buffer3D_upload B dev fs xs (take (length xs) ys) (take (length xs) zs) garbage"
    using assms(1,2,4,5) by (rule Buffer3D_upload_take)
  have 3: "Buffer3D_upload B dev fs xs ys zs garbage =
      Inr (uploaded B dev xs, after_upload B dev fs xs (take (length xs) ys) (take (length xs) zs))"
    if "allocates dev fs (length xs * v B * sizeof_Rv B)" "host_writes dev fs"
    unfolding a using assms(1,2,4,5,3) that by (rule Buffer3D_upload_eq)
  from 1 2 3 show ?thesis
    by blast
qed

theorem upload_defined_on_longer_ys_zs_witness:
  "Buffer3D_upload (float_build False False) no_objects 0
       [0x3F800000] [0x40000000, 0x40400000] [0x40800000, 0x40A00000, 0x40C00000] (\<lambda>k. 0) =
     Inr (uploaded (float_build False False) no_objects [0x3F800000],
          after_upload (float_build False False) no_objects 0 [0x3F800000] [0x40000000] [0x40800000]) \<and>
   n_elems (uploaded (float_build False False) no_objects [0x3F800000]) = 1"
proof -
  let ?B = "float_build False False"
  let ?xs = "[0x3F800000] :: 32 word list"
  let ?ys = "[0x40000000, 0x40400000] :: 32 word list"
  let ?zs = "[0x40800000, 0x40A00000, 0x40C00000] :: 32 word list"
  have al: "allocates no_objects 0 (length ?xs * v ?B * sizeof_Rv ?B)"
    by (simp add: allocates_no_objects float_build_sizes)
  have hw: "host_writes no_objects 0"
    by (simp add: no_objects_def)
  have "(\<exists>b dev'. Buffer3D_upload ?B no_objects 0 ?xs ?ys ?zs (\<lambda>k. 0) = Inr (b, dev') \<and>
            n_elems b = of_nat (length ?xs)) \<and>
         Buffer3D_upload ?B no_objects 0 ?xs ?ys ?zs (\<lambda>k. 0) =
           Buffer3D_upload ?B no_objects 0 ?xs (take (length ?xs) ?ys) (take (length ?xs) ?zs) (\<lambda>k. 0) \<and>
         (allocates no_objects 0 (length ?xs * v ?B * sizeof_Rv ?B) \<and> host_writes no_objects 0 \<longrightarrow>
            Buffer3D_upload ?B no_objects 0 ?xs ?ys ?zs (\<lambda>k. 0) =
              Inr (uploaded ?B no_objects ?xs,
                   after_upload ?B no_objects 0 ?xs (take (length ?xs) ?ys) (take (length ?xs) ?zs)))"
    by (rule upload_defined_on_longer_ys_zs) (simp_all add: build_ok_float_build fits_float_build)
  with al hw have "Buffer3D_upload ?B no_objects 0 ?xs ?ys ?zs (\<lambda>k. 0) =
      Inr (uploaded ?B no_objects ?xs,
           after_upload ?B no_objects 0 ?xs (take (length ?xs) ?ys) (take (length ?xs) ?zs))"
    by blast
  then show ?thesis
    by (simp add: uploaded_def)
qed

text \<open>
  C10 as stated fails for an empty \<open>xs\<close>, where \<open>ys\<close> and \<open>zs\<close> of any length are at
  least as long: the platform rejects the allocation of 0 bytes, the staging array has no
  element, and \<^verbatim>\<open>&buff[0]\<close> in the call of \<^verbatim>\<open>enqueueWriteBuffer\<close> is an index out of range.
  Here in the vector float build, with one element in \<open>ys\<close> and two in \<open>zs\<close>.
\<close>

theorem upload_empty_xs_counterexample:
  "Buffer3D_upload (float_build True False) no_objects 0
       [] [0x40000000] [0x40400000, 0x40800000] (\<lambda>k. 0) = Inl StagingIndex"
  by (simp add: Buffer3D_upload_def Let_def cl_Buffer_new_def clCreateBuffer_def no_objects_def
      assign_at_def index_def staging_def)

section \<open>Round trip\<close>

text \<open>
  C1, as the code has it. For non-empty host vectors of equal length \<open>n\<close> whose buffer
  fits \<^verbatim>\<open>size_t\<close>, on a platform that allocates the buffer and lets the host write and
  read it, the uploading constructor followed by
  \<^verbatim>\<open>copy_to_host\<close> into destinations of length \<open>n\<close> returns each value converted to the
  device type and back, \<^verbatim>\<open>R(T(x))\<close>: the original up to the rounding of the two
  conversions. Where the conversions lose nothing (matching precision) the destinations
  equal the originals exactly. The instance is the scenario xs = [1.0, 2.0],
  ys = [3.0, 4.0], zs = [5.0, 6.0] in the float build.
\<close>

theorem upload_then_copy_to_host_round_trip:
  assumes "build_ok B" "fits B (length xs)" "xs \<noteq> []"
    and "length ys = length xs" "length zs = length xs"
    and "allocates dev fs (length xs * v B * sizeof_Rv B)" "host_writes dev fs" "host_reads dev fs"
    and "length xs0 = length xs" "length ys0 = length xs" "length zs0 = length xs"
  shows "Buffer3D_upload B dev fs xs ys zs garbage =
           Inr (uploaded B dev xs, after_upload B dev fs xs ys zs) \<and>
         copy_to_host B (uploaded B dev xs) (after_upload B dev fs xs ys zs) xs0 ys0 zs0 =
           Inr (after_upload B dev fs xs ys zs,
                map (\<lambda>x. to_host B (to_dev B x)) xs,
                map (\<lambda>y. to_host B (to_dev B y)) ys,
                map (\<lambda>z. to_host B (to_dev B z)) zs) \<and>
         ((\<forall>x. to_host B (to_dev B x) = x) \<longrightarrow>
            copy_to_host B (uploaded B dev xs) (after_upload B dev fs xs ys zs) xs0 ys0 zs0 =
              Inr (after_upload B dev fs xs ys zs, xs, ys, zs))"
proof -
  have m: "map (\<lambda>j. to_host B (to_dev B (ws ! j))) [0..<length xs] = map (\<lambda>x. to_host B (to_dev B x)) ws"
    if "length ws = length xs" for ws :: "'a list"
    using map_nth_upt [of "\<lambda>x. to_host B (to_dev B x)" ws] that by simp
  have 1: "Buffer3D_upload B dev fs xs ys zs garbage =
      Inr (uploaded B dev xs, after_upload B dev fs xs ys zs)"
    using assms(1-7) by (intro Buffer3D_upload_eq) simp_all
  have 2: "copy_to_host B (uploaded B dev xs) (after_upload B dev fs xs ys zs) xs0 ys0 zs0 =
           Inr (after_upload B dev fs xs ys zs,
                map (\<lambda>x. to_host B (to_dev B x)) xs,
                map (\<lambda>y. to_host B (to_dev B y)) ys,
                map (\<lambda>z. to_host B (to_dev B z)) zs)"
    using copy_to_host_after_upload [OF assms(1-3) assms(8), of xs0 ys0 zs0 ys zs] assms(4,5,9-11)
    by (simp add: m)
  have 3: "map (\<lambda>x. to_host B (to_dev B x)) ws = ws" if "\<forall>x. to_host B (to_dev B x) = x" for ws
    using that by (simp add: map_idI)
  show ?thesis
    unfolding 2 using 1 3 by simp
qed

theorem upload_then_copy_to_host_round_trip_witness:
  "Buffer3D_upload (float_build False False) no_objects 0
       [0x3F800000, 0x40000000] [0x40400000, 0x40800000] [0x40A00000, 0x40C00000] (\<lambda>k. 0) =
     Inr (uploaded (float_build False False) no_objects [0x3F800000, 0x40000000],
          after_upload (float_build False False) no_objects 0
            [0x3F800000, 0x40000000] [0x40400000, 0x40800000] [0x40A00000, 0x40C00000]) \<and>
   copy_to_host (float_build False False)
       (uploaded (float_build False False) no_objects [0x3F800000, 0x40000000])
       (after_upload (float_build False False) no_objects 0
            [0x3F800000, 0x40000000] [0x40400000, 0x40800000] [0x40A00000, 0x40C00000])
       [0, 0] [0, 0] [0, 0] =
     Inr (after_upload (float_build False False) no_objects 0
            [0x3F800000, 0x40000000] [0x40400000, 0x40800000] [0x40A00000, 0x40C00000],
          [0x3F800000, 0x40000000], [0x40400000, 0x40800000], [0x40A00000, 0x40C00000])"
proof -
  have hw: "host_writes no_objects 0" and hr: "host_reads no_objects 0"
    by (simp_all add: no_objects_def)
  from upload_then_copy_to_host_round_trip
    [of "float_build False False" "[0x3F800000, 0x40000000]" "[0x40400000, 0x40800000]"
        "[0x40A00000, 0x40C00000]" no_objects 0 "[0, 0]" "[0, 0]" "[0, 0]" "\<lambda>k. 0"]
  show ?thesis
    by (simp add: build_ok_float_build fits_float_build allocates_no_objects float_build_sizes hw hr)
      (simp add: float_build_def)
qed

text \<open>
  C1 as stated fails for \<open>n = 0\<close>: with three empty vectors the uploading constructor
  meets \<^verbatim>\<open>&buff[0]\<close> on an empty staging array, so there is no buffer to read back. It
  also fails where the platform rejects the allocation, which the constructor does not
  notice: under the flag word 8 (\<^verbatim>\<open>CL_MEM_USE_HOST_PTR\<close>, not valid without a host
  pointer) the element (1.0, 2.0, 3.0) is uploaded to no memory object, and
  \<^verbatim>\<open>copy_to_host\<close> returns the zeros of its own staging array.
\<close>

theorem round_trip_empty_counterexample:
  "and_then (Buffer3D_upload (float_build False False) no_objects 0 [] [] [] (\<lambda>k. 0))
     (\<lambda>(b, dev). copy_to_host (float_build False False) b dev [] [] []) = Inl StagingIndex \<and>
   and_then (Buffer3D_upload (float_build False False) no_objects 8
               [0x3F800000] [0x40000000] [0x40400000] (\<lambda>k. 0))
     (\<lambda>(b, dev). copy_to_host (float_build False False) b dev [7] [7] [7]) =
       Inr (no_objects, [0], [0], [0])"
proof -
  let ?B = "float_build False False"
  have 1: "and_then (Buffer3D_upload ?B no_objects 0 [] [] [] (\<lambda>k. 0))
     (\<lambda>(b, dev). copy_to_host ?B b dev [] [] []) = Inl StagingIndex"
    by (simp add: Buffer3D_upload_def Let_def cl_Buffer_new_def clCreateBuffer_def no_objects_def
        assign_at_def index_def staging_def)
  have new: "cl_Buffer_new no_objects 8 k (\<lambda>k. 0) = (Null, no_objects)" for k
    by (simp add: cl_Buffer_new_def clCreateBuffer_def no_objects_def)
  have pl: "pack_loop ?B [0x3F800000] [0x40000000] [0x40400000]
      (unat (of_nat (length [0x3F800000 :: 32 word]) :: size_t)) 0
      (staging ?B (of_nat (length [0x3F800000 :: 32 word]))) =
      Inr (packed ?B [0x3F800000] [0x40000000] [0x40400000])"
    by (rule pack_loop_upload) (simp_all add: build_ok_float_build fits_float_build)
  have ne: "packed ?B [0x3F800000] [0x40000000] [0x40400000] \<noteq> []"
    by (rule packed_nonempty) simp
  have u: "Buffer3D_upload ?B no_objects 8 [0x3F800000] [0x40000000] [0x40400000] (\<lambda>k. 0) =
      Inr (\<lparr>buff_container = [Null], n_elems = 1, buffer_size = 12\<rparr>, no_objects)"
    unfolding Buffer3D_upload_def Let_def new
    using pl ne
    by (simp add: assign_at_def index_def enqueueWriteBuffer_def mem_object_def float_build_sizes
        del: pack_loop.simps)
  have 2: "copy_to_host ?B \<lparr>buff_container = [Null], n_elems = 1, buffer_size = 12\<rparr> no_objects
      [7] [7] [7] = Inr (no_objects, [0], [0], [0])"
    using copy_to_host_rejected [of ?B "\<lparr>buff_container = [Null], n_elems = 1, buffer_size = 12\<rparr>"
        Null no_objects "[7]" "[7]" "[7]"]
    by (simp add: build_ok_float_build fits_float_build mem_object_def) (simp add: float_build_def)
  from 1 u 2 show ?thesis
    by simp
qed

section \<open>What \<^verbatim>\<open>copy_to_host\<close> leaves alone\<close>

text \<open>
  C8. Whenever \<^verbatim>\<open>copy_to_host\<close> returns, on any buffer, any device and any destinations,
  the device it returns is the device it was given (the buffer itself is an argument
  only: the member function is \<^verbatim>\<open>const\<close>), the destinations keep their lengths, and their
  elements from index \<open>n_elems\<close> on are unchanged. And it does return, with these
  properties, on every occupied buffer of \<open>n\<close> elements with destinations of at least \<open>n\<close>
  elements each, whatever \<open>buffer_size\<close> is and whether or not the platform accepts the
  read. The instance is a buffer of the sized constructor for one element whose
  \<open>buffer_size\<close> was computed as 0.
\<close>

theorem copy_to_host_frame:
  "(copy_to_host B b dev xs ys zs = Inr (dev', xs', ys', zs') \<longrightarrow>
      dev' = dev \<and>
      length xs' = length xs \<and> length ys' = length ys \<and> length zs' = length zs \<and>
      drop (unat (n_elems b)) xs' = drop (unat (n_elems b)) xs \<and>
      drop (unat (n_elems b)) ys' = drop (unat (n_elems b)) ys \<and>
      drop (unat (n_elems b)) zs' = drop (unat (n_elems b)) zs) \<and>
   (build_ok B \<and> occupied B dev b \<and>
    unat (n_elems b) \<le> length xs \<and> unat (n_elems b) \<le> length ys \<and> unat (n_elems b) \<le> length zs \<longrightarrow>
      (\<exists>xs1 ys1 zs1.
         copy_to_host B b dev xs ys zs = Inr (dev, xs1, ys1, zs1) \<and>
         length xs1 = length xs \<and> length ys1 = length ys \<and> length zs1 = length zs \<and>
         drop (unat (n_elems b)) xs1 = drop (unat (n_elems b)) xs \<and>
         drop (unat (n_elems b)) ys1 = drop (unat (n_elems b)) ys \<and>
         drop (unat (n_elems b)) zs1 = drop (unat (n_elems b)) zs))"
proof -
  have 1: "dev' = dev \<and>
      length xs' = length xs \<and> length ys' = length ys \<and> length zs' = length zs \<and>
      drop (unat (n_elems b)) xs' = drop (unat (n_elems b)) xs \<and>
      drop (unat (n_elems b)) ys' = drop (unat (n_elems b)) ys \<and>
      drop (unat (n_elems b)) zs' = drop (unat (n_elems b)) zs"
    if "copy_to_host B b dev xs ys zs = Inr (dev', xs', ys', zs')"
    using copy_to_host_Inr [OF that] by (simp add: kept_from_def)
  have 2: "\<exists>xs1 ys1 zs1.
         copy_to_host B b dev xs ys zs = Inr (dev, xs1, ys1, zs1) \<and>
         length xs1 = length xs \<and> length ys1 = length ys \<and> length zs1 = length zs \<and>
         drop (unat (n_elems b)) xs1 = drop (unat (n_elems b)) xs \<and>
         drop (unat (n_elems b)) ys1 = drop (unat (n_elems b)) ys \<and>
         drop (unat (n_elems b)) zs1 = drop (unat (n_elems b)) zs"
    if ok: "build_ok B" and occ: "occupied B dev b"
      and len: "unat (n_elems b) \<le> length xs" "unat (n_elems b) \<le> length ys"
        "unat (n_elems b) \<le> length zs"
  proof -
    from occ obtain h obj where b: "buff_container b = [Mem h]" "objects dev h = Some obj"
      "length (contents obj) = unat (n_elems b) * v B * sizeof_Rv B"
      "0 < unat (n_elems b)"
      "fits B (unat (n_elems b))"
      by (rule occupiedD)
    show ?thesis
      unfolding copy_to_host_eq [OF ok b len] using len by simp
  qed
  from 1 2 show ?thesis
    by blast
qed

theorem copy_to_host_frame_witness:
  "Buffer3D_sized (float_build False False) 0 no_objects 0 1 (\<lambda>k. 7) =
     Inr (\<lparr>buff_container = [Mem 0], n_elems = 1, buffer_size = 0\<rparr>,
          snd (cl_Buffer_new no_objects 0 12 (\<lambda>k. 7))) \<and>
   occupied (float_build False False) (snd (cl_Buffer_new no_objects 0 12 (\<lambda>k. 7)))
     \<lparr>buff_container = [Mem 0], n_elems = 1, buffer_size = 0\<rparr> \<and>
   (\<exists>xs' ys' zs'.
      copy_to_host (float_build False False)
        \<lparr>buff_container = [Mem 0], n_elems = 1, buffer_size = 0\<rparr>
        (snd (cl_Buffer_new no_objects 0 12 (\<lambda>k. 7)))
        [7, 8] [7, 8, 9] [7] =
      Inr (snd (cl_Buffer_new no_objects 0 12 (\<lambda>k. 7)), xs', ys', zs') \<and>
      length xs' = 2 \<and> length ys' = 3 \<and> length zs' = 1 \<and>
      drop 1 xs' = [8] \<and> drop 1 ys' = [8, 9] \<and> drop 1 zs' = [])"
proof -
  let ?B = "float_build False False"
  let ?b = "\<lparr>buff_container = [Mem 0], n_elems = 1, buffer_size = 0\<rparr>"
  let ?d = "snd (cl_Buffer_new no_objects 0 12 (\<lambda>k. 7))"
  have s: "Buffer3D_sized ?B 0 no_objects 0 1 (\<lambda>k. 7) = Inr (?b, ?d)"
    by (simp add: Buffer3D_sized_eq float_build_sizes cl_Buffer_new_no_objects)
  have occ: "occupied ?B ?d ?b"
  proof (rule occupied_after_sized [OF build_ok_float_build _ _ _ s])
    show "fits ?B (unat (1 :: size_t))"
      by (rule fits_float_build) simp
    show "0 < unat (1 :: size_t)"
      by simp
    show "allocates no_objects 0 (unat (1 :: size_t) * v ?B * sizeof_Rv ?B)"
      by (simp add: allocates_no_objects float_build_sizes)
  qed
  have n: "unat (n_elems ?b) = 1"
    by simp
  note f = copy_to_host_frame [of ?B ?b ?d "[7, 8]" "[7, 8, 9]" "[7]"]
  from f [of ?d "[]" "[]" "[]"] build_ok_float_build [of False False] occ
  obtain xs1 ys1 zs1 where r: "copy_to_host ?B ?b ?d [7, 8] [7, 8, 9] [7] = Inr (?d, xs1, ys1, zs1)"
    unfolding n by auto
  with f [of ?d xs1 ys1 zs1] have "length xs1 = 2 \<and> length ys1 = 3 \<and> length zs1 = 1 \<and>
      drop 1 xs1 = [8] \<and> drop 1 ys1 = [8, 9] \<and> drop 1 zs1 = []"
    unfolding n by (auto simp: eval_nat_numeral)
  with s occ r show ?thesis
    by blast
qed

section \<open>Device to device copy\<close>

text \<open>
  C5. For occupied buffers \<open>A\<close> and \<open>D\<close> on one device with the same \<open>buffer_size\<close> and
  the same element count (given, or following from \<open>buffer_size\<close> where that is
  \<^verbatim>\<open>n_elems * v * sizeof(Rv)\<close> in both, as the uploading constructor leaves it), that
  the host may read alike (both or neither),
  \<^verbatim>\<open>A.copy_to_dev(q, D)\<close> returns, both stay occupied, and \<^verbatim>\<open>copy_to_host\<close> of \<open>D\<close> then
  yields exactly what \<^verbatim>\<open>copy_to_host\<close> of \<open>A\<close> yields, whatever \<open>D\<close> held before; and that
  is what \<^verbatim>\<open>copy_to_host\<close> of \<open>A\<close> yielded before the copy: the copy goes from \<open>A\<close> to \<open>D\<close>.
  The instance copies an uploaded element (1.0, 2.0, 3.0) to a buffer of the sized
  constructor that held the bytes \<open>0xAA\<close>.
\<close>

theorem copy_to_dev_reads_agree:
  assumes "build_ok B" "occupied B dev A" "occupied B dev D" "buffer_size D = buffer_size A"
    and "n_elems D = n_elems A \<or>
         (buffer_size A = n_elems A * of_nat (v B) * of_nat (sizeof_Rv B) \<and>
          buffer_size D = n_elems D * of_nat (v B) * of_nat (sizeof_Rv B))"
    and "host_readable dev D = host_readable dev A"
  shows "\<exists>dev'. copy_to_dev A dev D = Inr dev' \<and>
                occupied B dev' A \<and> occupied B dev' D \<and> n_elems D = n_elems A \<and>
                copy_to_host B D dev' xs ys zs = copy_to_host B A dev' xs ys zs \<and>
                map_sum id snd (copy_to_host B D dev' xs ys zs) =
                  map_sum id snd (copy_to_host B A dev xs ys zs)"
proof -
  let ?k = "unat (buffer_size A)"
  from assms(2) obtain ha oa where A: "buff_container A = [Mem ha]" "objects dev ha = Some oa"
    "length (contents oa) = unat (n_elems A) * v B * sizeof_Rv B"
    "0 < unat (n_elems A)"
    "fits B (unat (n_elems A))"
    by (rule occupiedD)
  from assms(3) obtain hb od where D: "buff_container D = [Mem hb]" "objects dev hb = Some od"
    "length (contents od) = unat (n_elems D) * v B * sizeof_Rv B"
    "0 < unat (n_elems D)"
    "fits B (unat (n_elems D))"
    by (rule occupiedD)
  from assms(5) have n: "n_elems D = n_elems A"
  proof
    assume "buffer_size A = n_elems A * of_nat (v B) * of_nat (sizeof_Rv B) \<and>
          buffer_size D = n_elems D * of_nat (v B) * of_nat (sizeof_Rv B)"
    then show ?thesis
      using same_size_same_n [OF assms(1) _ A(5) _ D(5) assms(4)] by blast
  qed
  have L: "length (contents od) = length (contents oa)"
    using A(3) D(3) n by simp
  have rdeq: "host_reads dev (mem_flags od) = host_reads dev (mem_flags oa)"
    using assms(6) A(1,2) D(1,2) by (simp add: host_readable_def mem_object_def)
  let ?od = "od\<lparr>contents := take ?k (contents oa) @ drop ?k (contents od)\<rparr>"
  let ?dev = "if length (contents oa) < ?k \<or> (ha = hb \<and> 0 < ?k) then dev
              else dev\<lparr>objects := (objects dev)(hb \<mapsto> ?od)\<rparr>"
  have cp: "copy_to_dev A dev D = Inr ?dev"
    using A(1,2) D(1,2) L by (rule copy_to_dev_eq)
  have hrd: "host_reads ?dev = host_reads dev"
    by simp
  obtain oa' od' where o: "objects ?dev ha = Some oa'" "objects ?dev hb = Some od'"
    "contents oa' = contents oa" "length (contents od') = length (contents oa)"
    "length (contents oa) < ?k \<or> take ?k (contents od') = take ?k (contents oa)"
    "host_reads dev (mem_flags oa') = host_reads dev (mem_flags oa)"
    "host_reads dev (mem_flags od') = host_reads dev (mem_flags oa)"
  proof (cases "length (contents oa) < ?k \<or> (ha = hb \<and> 0 < ?k)")
    case True
    with A(2) D(2) L rdeq show ?thesis
      by (intro that [of oa od]) auto
  next
    case False
    show ?thesis
    proof (cases "ha = hb")
      case True
      with False A(2) D(2) L rdeq show ?thesis
        by (intro that [of ?od ?od]) auto
    next
      case neq: False
      with False A(2) D(2) L rdeq show ?thesis
        by (intro that [of oa ?od]) auto
    qed
  qed
  have occA: "occupied B ?dev A"
    using A(1) o(1) _ A(4,5) by (rule occupiedI) (simp add: o(3) A(3))
  have occD: "occupied B ?dev D"
    using D(1) o(2) _ D(4,5) by (rule occupiedI) (simp add: o(4) A(3) n)
  have h: "held B D m = held B A m" for m
    by (simp add: held_def n)
  let ?m = "after_read B A (host_reads dev (mem_flags oa)) (contents oa)"
  have ar: "after_read B D (host_reads ?dev (mem_flags od')) (contents od') = ?m"
    unfolding hrd o(7) using o(4,5) n assms(4) by (auto simp: after_read_def)
  have ar': "after_read B A (host_reads ?dev (mem_flags oa')) (contents oa') = ?m"
    unfolding hrd o(6) o(3) ..
  have rA: "copy_to_host B A dev xs ys zs =
     and_then (unpack_loop B (held B A ?m) (unat (n_elems A)) 0 (xs, ys, zs))
       (\<lambda>dest. Inr (dev, dest))"
    using assms(1) A by (rule copy_to_host_via)
  have "copy_to_host B A ?dev xs ys zs =
     and_then (unpack_loop B (held B A (after_read B A (host_reads ?dev (mem_flags oa')) (contents oa')))
                 (unat (n_elems A)) 0 (xs, ys, zs))
       (\<lambda>dest. Inr (?dev, dest))"
    using assms(1) A(1) o(1) _ A(4,5) by (rule copy_to_host_via) (simp add: o(3) A(3))
  then have rA': "copy_to_host B A ?dev xs ys zs =
     and_then (unpack_loop B (held B A ?m) (unat (n_elems A)) 0 (xs, ys, zs))
       (\<lambda>dest. Inr (?dev, dest))"
    unfolding ar' .
  have "copy_to_host B D ?dev xs ys zs =
     and_then (unpack_loop B (held B D (after_read B D (host_reads ?dev (mem_flags od')) (contents od')))
                 (unat (n_elems D)) 0 (xs, ys, zs))
       (\<lambda>dest. Inr (?dev, dest))"
    using assms(1) D(1) o(2) _ D(4,5) by (rule copy_to_host_via) (simp add: o(4) A(3) n)
  then have rD': "copy_to_host B D ?dev xs ys zs =
     and_then (unpack_loop B (held B A ?m) (unat (n_elems A)) 0 (xs, ys, zs))
       (\<lambda>dest. Inr (?dev, dest))"
    unfolding ar h n .
  have "copy_to_host B D ?dev xs ys zs = copy_to_host B A ?dev xs ys zs"
    unfolding rA' rD' ..
  moreover have "map_sum id snd (copy_to_host B D ?dev xs ys zs) =
      map_sum id snd (copy_to_host B A dev xs ys zs)"
    unfolding rA rD' map_sum_and_then_Inr ..
  ultimately show ?thesis
    using cp occA occD n by blast
qed

theorem copy_to_dev_reads_agree_witness:
  "Buffer3D_sized (float_build False False) 3 no_objects 0 1 (\<lambda>k. 0xAA) =
     Inr (\<lparr>buff_container = [Mem 0], n_elems = 1, buffer_size = 12\<rparr>,
          snd (cl_Buffer_new no_objects 0 12 (\<lambda>k. 0xAA))) \<and>
   Buffer3D_upload (float_build False False) (snd (cl_Buffer_new no_objects 0 12 (\<lambda>k. 0xAA))) 0
       [0x3F800000] [0x40000000] [0x40400000] (\<lambda>k. 0) =
     Inr (uploaded (float_build False False) (snd (cl_Buffer_new no_objects 0 12 (\<lambda>k. 0xAA)))
            [0x3F800000],
          after_upload (float_build False False) (snd (cl_Buffer_new no_objects 0 12 (\<lambda>k. 0xAA))) 0
            [0x3F800000] [0x40000000] [0x40400000]) \<and>
   (\<exists>dev'.
      copy_to_dev
        (uploaded (float_build False False) (snd (cl_Buffer_new no_objects 0 12 (\<lambda>k. 0xAA)))
           [0x3F800000])
        (after_upload (float_build False False) (snd (cl_Buffer_new no_objects 0 12 (\<lambda>k. 0xAA))) 0
           [0x3F800000] [0x40000000] [0x40400000])
        \<lparr>buff_container = [Mem 0], n_elems = 1, buffer_size = 12\<rparr> = Inr dev' \<and>
      copy_to_host (float_build False False)
        \<lparr>buff_container = [Mem 0], n_elems = 1, buffer_size = 12\<rparr> dev' [0] [0] [0] =
      Inr (dev', [0x3F800000], [0x40000000], [0x40400000]))"
proof -
  let ?B = "float_build False False"
  let ?D = "\<lparr>buff_container = [Mem 0], n_elems = 1, buffer_size = 12\<rparr>"
  let ?d1 = "snd (cl_Buffer_new no_objects 0 12 (\<lambda>k. 0xAA))"
  let ?A = "uploaded ?B ?d1 [0x3F800000]"
  let ?d2 = "after_upload ?B ?d1 0 [0x3F800000] [0x40000000] [0x40400000]"
  note ok = build_ok_float_build [of False False]
  have fits: "fits ?B (length [0x3F800000 :: 32 word])"
    by (rule fits_float_build) simp
  have d1: "?d1 = \<lparr>objects = (\<lambda>h. None)(0 \<mapsto> \<lparr>refcount = 1, mem_flags = 0,
                                            contents = map (\<lambda>k. 0xAA) [0..<12]\<rparr>),
              next_handle = 1, available = 2 ^ 30 - 12,
              valid_flags = (\<lambda>fs. fs = 0 \<or> fs = 1 \<or> fs = 2 \<or> fs = 4),
              host_reads = (\<lambda>fs. True), host_writes = (\<lambda>fs. True)\<rparr>"
    using cl_Buffer_new_no_objects [of 12 "\<lambda>k. 0xAA"] by simp
  have s: "Buffer3D_sized ?B 3 no_objects 0 1 (\<lambda>k. 0xAA) = Inr (?D, ?d1)"
    by (simp add: Buffer3D_sized_eq float_build_sizes cl_Buffer_new_no_objects)
  have occD1: "occupied ?B ?d1 ?D"
  proof (rule occupied_after_sized [OF ok _ _ _ s])
    show "fits ?B (unat (1 :: size_t))"
      by (rule fits_float_build) simp
    show "0 < unat (1 :: size_t)"
      by simp
    show "allocates no_objects 0 (unat (1 :: size_t) * v ?B * sizeof_Rv ?B)"
      by (simp add: allocates_no_objects float_build_sizes)
  qed
  have al: "allocates ?d1 0 (length [0x3F800000 :: 32 word] * v ?B * sizeof_Rv ?B)"
    unfolding d1 by (simp add: allocates_def float_build_sizes)
  have hrw: "host_writes ?d1 0" "host_reads ?d1 0"
    unfolding d1 by simp_all
  have u: "Buffer3D_upload ?B ?d1 0 [0x3F800000] [0x40000000] [0x40400000] (\<lambda>k. 0) = Inr (?A, ?d2)"
    using ok fits _ _ _ al hrw(1) by (rule Buffer3D_upload_eq) simp_all
  have occA: "occupied ?B ?d2 ?A"
    using ok fits by (rule occupied_after_upload) simp
  have occD: "occupied ?B ?d2 ?D"
    using _ _ occD1 by (rule occupied_same_object [where h = 0])
      (simp_all add: after_upload_def d1)
  have sz: "buffer_size ?D = buffer_size ?A"
    by (simp add: uploaded_def float_build_sizes)
  have nn: "n_elems ?D = n_elems ?A \<or>
         (buffer_size ?A = n_elems ?A * of_nat (v ?B) * of_nat (sizeof_Rv ?B) \<and>
          buffer_size ?D = n_elems ?D * of_nat (v ?B) * of_nat (sizeof_Rv ?B))"
    by (simp add: uploaded_def)
  have rr: "host_readable ?d2 ?D = host_readable ?d2 ?A"
    by (simp add: host_readable_def mem_object_def uploaded_def after_upload_def d1)
  have before: "copy_to_host ?B ?A ?d2 [0] [0] [0] =
      Inr (?d2, [0x3F800000], [0x40000000], [0x40400000])"
    using copy_to_host_after_upload [OF ok fits _ hrw(2), of "[0]" "[0]" "[0]" "[0x40000000]" "[0x40400000]"]
    by (simp add: float_build_def)
  from copy_to_dev_reads_agree [OF ok occA occD sz nn rr, of "[0]" "[0]" "[0]"]
  obtain dev' where cp: "copy_to_dev ?A ?d2 ?D = Inr dev'"
    and pin: "map_sum id snd (copy_to_host ?B ?D dev' [0] [0] [0]) =
              map_sum id snd (copy_to_host ?B ?A ?d2 [0] [0] [0])"
    by blast
  from pin have "map_sum id snd (copy_to_host ?B ?D dev' [0] [0] [0]) =
      Inr ([0x3F800000], [0x40000000], [0x40400000])"
    unfolding before by simp
  then obtain d where "copy_to_host ?B ?D dev' [0] [0] [0] =
      Inr (d, [0x3F800000], [0x40000000], [0x40400000])"
    by (cases "copy_to_host ?B ?D dev' [0] [0] [0]") auto
  moreover from this have "d = dev'"
    by (auto dest: copy_to_host_Inr)
  ultimately have "copy_to_host ?B ?D dev' [0] [0] [0] =
      Inr (dev', [0x3F800000], [0x40000000], [0x40400000])"
    by simp
  with s u cp show ?thesis
    by blast
qed

section \<open>\<^verbatim>\<open>zero_buffer\<close>\<close>

text \<open>
  C2 fails where \<^verbatim>\<open>CL_API_SUFFIX__VERSION_1_2\<close> is defined. The call
  \<^verbatim>\<open>enqueueFillBuffer(buff_container[0], &zero, sizeof(Rv), v*n_elems)\<close> fills \<^verbatim>\<open>v*n_elems\<close>
  bytes from byte \<^verbatim>\<open>sizeof(Rv)\<close> on with the bytes of the pointer \<^verbatim>\<open>&zero\<close>, so the first
  \<^verbatim>\<open>Rv\<close> of the buffer is never written: on every occupied buffer with at least one
  element, whenever \<^verbatim>\<open>zero_buffer\<close> returns, \<^verbatim>\<open>copy_to_host\<close> reads the same x component of
  element 0 after the call as before it. (Without the fill primitive a buffer of the
  uploading constructor does read back as zeros: lemma \<open>zero_buffer_fallback_zeroes\<close>.)

  The instance is \<^verbatim>\<open>Buffer3D<cl_double>\<close> in the interleaved build holding eight elements
  (1.0, 2.0, 3.0), where the offset 8 and the size 24 of the fill are multiples of the
  pattern size 8, as OpenCL asks of a fill: the platform accepts the fill, \<^verbatim>\<open>zero_buffer\<close>
  returns and x of element 0 still reads 1.0.
\<close>

theorem zero_buffer_fill_path_keeps_first_x:
  assumes ok: "build_ok B" and cl12: "CL_API_SUFFIX__VERSION_1_2 B" and occ: "occupied B dev b"
    and pos: "0 < unat (n_elems b)"
    and z: "zero_buffer B b dev a = Inr dev'"
    and len: "unat (n_elems b) \<le> length xs" "unat (n_elems b) \<le> length ys"
      "unat (n_elems b) \<le> length zs"
  shows "\<exists>xs0 ys0 zs0 xs' ys' zs'.
           copy_to_host B b dev xs ys zs = Inr (dev, xs0, ys0, zs0) \<and>
           copy_to_host B b dev' xs ys zs = Inr (dev', xs', ys', zs') \<and>
           xs' ! 0 = xs0 ! 0"
proof -
  let ?n = "unat (n_elems b)"
  let ?k = "unat (of_nat (v B) * n_elems b)"
  let ?s = "sizeof_Rv B"
  from occ obtain h obj where b: "buff_container b = [Mem h]" "objects dev h = Some obj"
    "length (contents obj) = ?n * v B * sizeof_Rv B"
    "0 < ?n"
    "fits B ?n"
    by (rule occupiedD)
  let ?bs = "take ?k (concat (replicate ?k a))"
  let ?rej = "length (contents obj) < ?s + ?k \<or> length a \<notin> set [1, 2, 4, 8, 16, 32, 64, 128] \<or>
              ?s mod length a \<noteq> 0 \<or> ?k mod length a \<noteq> 0"
  from z have dev': "dev' = (if ?rej then dev else store_bytes dev h obj ?s ?bs)"
    unfolding zero_buffer_fill_eq [OF cl12 b(1,2)] by simp
  obtain obj' where ob: "objects dev' h = Some obj'"
    and lo: "length (contents obj') = length (contents obj)"
    and tk: "take ?s (contents obj') = take ?s (contents obj)"
    and rd: "host_reads dev' (mem_flags obj') = host_reads dev (mem_flags obj)"
  proof (cases ?rej)
    case True
    with b(2) dev' show ?thesis
      by (intro that [of obj]) simp_all
  next
    case False
    then have "a \<noteq> []"
      by auto
    then have lb: "length ?bs = ?k"
      by (rule length_fill_pattern)
    from False have rng: "?s + ?k \<le> length (contents obj)"
      by simp
    let ?c = "take ?s (contents obj) @ ?bs @ drop (?s + ?k) (contents obj)"
    have d: "dev' = dev\<lparr>objects := (objects dev)(h \<mapsto> obj\<lparr>contents := ?c\<rparr>)\<rparr>"
      using False dev' unfolding store_bytes_def lb by (simp only: if_False)
    have "length ?c = length (contents obj)"
      using rng unfolding length_append lb by simp
    moreover have "take ?s ?c = take ?s (contents obj)"
      using rng by simp
    ultimately show ?thesis
      using d by (intro that [of "obj\<lparr>contents := ?c\<rparr>"]) simp_all
  qed
  have lo': "length (contents obj') = ?n * v B * sizeof_Rv B"
    using lo b(3) by simp
  have vn: "0 < v B * ?n"
    using pos by (simp add: v_def)
  have x0: "(map (\<lambda>j. to_host B (component B (held B b cs) j 0)) [0..<?n] @ drop ?n xs) ! 0 =
      to_host B (bytes_Rv B (take ?s cs) ! 0)" for cs
    using pos held_first [OF vn, of cs] by (simp add: nth_append component_first)
  let ?r = "host_reads dev (mem_flags obj)"
  have 1: "copy_to_host B b dev xs ys zs =
      Inr (dev,
        map (\<lambda>j. to_host B (component B (held B b (after_read B b ?r (contents obj))) j 0)) [0..<?n] @ drop ?n xs,
        map (\<lambda>j. to_host B (component B (held B b (after_read B b ?r (contents obj))) j 1)) [0..<?n] @ drop ?n ys,
        map (\<lambda>j. to_host B (component B (held B b (after_read B b ?r (contents obj))) j 2)) [0..<?n] @ drop ?n zs)"
    using ok b len by (rule copy_to_host_eq)
  have "copy_to_host B b dev' xs ys zs =
      Inr (dev',
        map (\<lambda>j. to_host B (component B (held B b (after_read B b (host_reads dev' (mem_flags obj')) (contents obj'))) j 0)) [0..<?n] @ drop ?n xs,
        map (\<lambda>j. to_host B (component B (held B b (after_read B b (host_reads dev' (mem_flags obj')) (contents obj'))) j 1)) [0..<?n] @ drop ?n ys,
        map (\<lambda>j. to_host B (component B (held B b (after_read B b (host_reads dev' (mem_flags obj')) (contents obj'))) j 2)) [0..<?n] @ drop ?n zs)"
    using ok b(1) ob lo' b(4,5) len by (rule copy_to_host_eq)
  then have 2: "copy_to_host B b dev' xs ys zs =
      Inr (dev',
        map (\<lambda>j. to_host B (component B (held B b (after_read B b ?r (contents obj'))) j 0)) [0..<?n] @ drop ?n xs,
        map (\<lambda>j. to_host B (component B (held B b (after_read B b ?r (contents obj'))) j 1)) [0..<?n] @ drop ?n ys,
        map (\<lambda>j. to_host B (component B (held B b (after_read B b ?r (contents obj'))) j 2)) [0..<?n] @ drop ?n zs)"
    unfolding rd .
  have "take ?s (after_read B b ?r (contents obj')) = take ?s (after_read B b ?r (contents obj))"
    using lo tk by (rule after_read_take)
  then have "(map (\<lambda>j. to_host B (component B (held B b (after_read B b ?r (contents obj'))) j 0)) [0..<?n] @ drop ?n xs) ! 0 =
        (map (\<lambda>j. to_host B (component B (held B b (after_read B b ?r (contents obj))) j 0)) [0..<?n] @ drop ?n xs) ! 0"
    unfolding x0 by (simp only:)
  with 1 2 show ?thesis
    by blast
qed

theorem zero_buffer_fill_path_keeps_first_x_witness:
  "fst (enqueueFillBuffer
       (after_upload (double_build False True) no_objects 0 (replicate 8 0x3FF0000000000000)
          (replicate 8 0x4000000000000000) (replicate 8 0x4008000000000000))
       (Mem 0) [0x10, 0xE0, 0xFF, 0xFF, 0xFF, 0x7F, 0, 0] 8 24) = CL_SUCCESS \<and>
   (\<exists>dev' xs' ys' zs'.
     zero_buffer (double_build False True)
       (uploaded (double_build False True) no_objects (replicate 8 0x3FF0000000000000))
       (after_upload (double_build False True) no_objects 0 (replicate 8 0x3FF0000000000000)
          (replicate 8 0x4000000000000000) (replicate 8 0x4008000000000000))
       [0x10, 0xE0, 0xFF, 0xFF, 0xFF, 0x7F, 0, 0] = Inr dev' \<and>
     copy_to_host (double_build False True)
       (uploaded (double_build False True) no_objects (replicate 8 0x3FF0000000000000))
       dev' (replicate 8 0) (replicate 8 0) (replicate 8 0) = Inr (dev', xs', ys', zs') \<and>
     xs' ! 0 = 0x3FF0000000000000)"
proof -
  let ?B = "double_build False True"
  let ?xs = "replicate 8 0x3FF0000000000000 :: 64 word list"
  let ?ys = "replicate 8 0x4000000000000000 :: 64 word list"
  let ?zs = "replicate 8 0x4008000000000000 :: 64 word list"
  let ?b = "uploaded ?B no_objects ?xs"
  let ?d = "after_upload ?B no_objects 0 ?xs ?ys ?zs"
  let ?a = "[0x10, 0xE0, 0xFF, 0xFF, 0xFF, 0x7F, 0, 0] :: byte list"
  let ?o = "replicate 8 0 :: 64 word list"
  have ok: "build_ok ?B"
    by (rule build_ok_double_build)
  have cl12: "CL_API_SUFFIX__VERSION_1_2 ?B"
    by (simp add: double_build_def)
  have fits: "fits ?B (length ?xs)"
    by (rule fits_double_build) simp
  have ne: "?xs \<noteq> []"
    by simp
  have occ: "occupied ?B ?d ?b"
    using ok fits ne by (rule occupied_after_upload)
  have n: "unat (n_elems ?b) = 8"
    by (simp add: uploaded_def)
  have lc: "length (host_bytes ?B (packed ?B ?xs ?ys ?zs)) = 192"
    using upload_sizes(3) [OF ok fits, of ?ys ?zs] by (simp add: double_build_sizes)
  have acc: "fst (enqueueFillBuffer ?d (Mem 0) ?a 8 24) = CL_SUCCESS"
    by (simp add: enqueueFillBuffer_def mem_object_def after_upload_def no_objects_def lc)
  have "\<exists>dev'. zero_buffer ?B ?b ?d ?a = Inr dev'"
    by (cases "enqueueFillBuffer ?d (Mem (next_handle no_objects)) ?a (sizeof_Rv ?B)
                 (unat (of_nat (v ?B) * n_elems ?b))")
      (simp add: zero_buffer_def index_def uploaded_def cl12)
  then obtain dev' where z: "zero_buffer ?B ?b ?d ?a = Inr dev'"
    by blast
  have before: "copy_to_host ?B ?b ?d ?o ?o ?o =
      Inr (?d,
           map (\<lambda>j. to_host ?B (to_dev ?B (?xs ! j))) [0..<length ?xs] @ drop (length ?xs) ?o,
           map (\<lambda>j. to_host ?B (to_dev ?B (?ys ! j))) [0..<length ?xs] @ drop (length ?xs) ?o,
           map (\<lambda>j. to_host ?B (to_dev ?B (?zs ! j))) [0..<length ?xs] @ drop (length ?xs) ?o)"
    using ok fits ne by (rule copy_to_host_after_upload) (simp_all add: no_objects_def)
  have x0: "(map (\<lambda>j. to_host ?B (to_dev ?B (?xs ! j))) [0..<length ?xs] @ drop (length ?xs) ?o) ! 0
      = 0x3FF0000000000000"
    by (simp add: nth_append double_build_def)
  from zero_buffer_fill_path_keeps_first_x [OF ok cl12 occ _ z, of ?o ?o ?o]
  obtain xs0 ys0 zs0 xs' ys' zs' where
    r: "copy_to_host ?B ?b ?d ?o ?o ?o = Inr (?d, xs0, ys0, zs0)"
      "copy_to_host ?B ?b dev' ?o ?o ?o = Inr (dev', xs', ys', zs')" "xs' ! 0 = xs0 ! 0"
    unfolding n by auto
  from r(1) before x0 have "xs0 ! 0 = 0x3FF0000000000000"
    by simp
  with z r(2,3) acc show ?thesis
    by auto
qed

end
